theory Spec2Isabelle
  imports Main "HOL-Library.Word"
begin

section \<open>Data model\<close>

text \<open>
  The lambda of \<^verbatim>\<open>src/index.js\<close> inspects a CAR file written to S3 with the functions
  of \<^verbatim>\<open>src/car.js\<close> and decides whether to read its root from the gateway.

  A content identifier is compared with \<^verbatim>\<open>cid.equals\<close>, which compares the version, the
  codec code and the multihash: equality of the record. The JavaScript numbers of the code
  are sizes in bytes: non-negative integers held in IEEE-754 doubles. They are modelled as
  natural numbers, and their addition as \<open>jsAdd\<close>, which rounds as the doubles do.
\<close>

type_synonym byte = "8 word"

record CID =
  version :: nat
  code :: nat
  multihash :: "byte list"

record Block =
  cid :: CID
  bytes :: "byte list"

text \<open>A DAG-PB node as \<^verbatim>\<open>@ipld/dag-pb\<close> decodes it; \<open>Tsize\<close> and \<open>Name\<close> are optional.\<close>

record PBLink =
  Hash :: CID
  Name :: "string option"
  Tsize :: "nat option"

record PBNode =
  Data :: "byte list option"
  Links :: "PBLink list"

text \<open>
  The value of a decoded block. A raw block decodes to its bytes. A DAG-CBOR value is kept
  as the identifiers that \<^verbatim>\<open>Block.links()\<close> finds in it, in the order it yields them.
\<close>

datatype Value = PBValue PBNode | RawValue "byte list" | CborValue "CID list"

datatype error =
    MissingRoots
  | TooManyRoots
  | BlockTooBig nat
  | EmptyCAR
  | MissingRootBlock
  | CarDecodeError
  | BlockDecodeError
  | TypeError
  | S3Error
  | FetchError
  | FailedToFetch

text \<open>
  \<^verbatim>\<open>CarBlockIterator.fromBytes\<close> reads the header at once and the blocks one by one while
  the caller iterates: the iterator is its roots, the blocks it yields, and whether the
  bytes after the last of them are malformed (the iteration then throws).
\<close>

record CarBlockIterator =
  getRoots :: "CID list"
  yielded :: "Block list"
  malformed :: bool

text \<open>
  The libraries the code calls are parameters: the CAR reader, the DAG-PB decoder and the
  DAG-CBOR decoder (\<open>None\<close> when \<^verbatim>\<open>decode\<close> throws).
\<close>

record Lib =
  fromBytes :: "byte list \<Rightarrow> error + CarBlockIterator"
  pb_decode :: "byte list \<Rightarrow> PBNode option"
  cbor_decode :: "byte list \<Rightarrow> CID list option"

record Inspection =
  rootCid :: CID
  "structure" :: "string option"
  size' :: "nat option"

section \<open>car.js\<close>

definition MAX_BLOCK_SIZE :: nat where
  "MAX_BLOCK_SIZE = 2 ^ 20"

definition pb_code :: nat where
  "pb_code = 0x70"

definition raw_code :: nat where
  "raw_code = 0x55"

definition cbor_code :: nat where
  "cbor_code = 0x71"

text \<open>\<^verbatim>\<open>const decoders = [pb, raw, cbor]\<close>: each decoder is its code and its \<^verbatim>\<open>decode\<close>.\<close>

definition decoders :: "Lib \<Rightarrow> (nat \<times> (byte list \<Rightarrow> error + Value)) list" where
  "decoders lib =
    [(pb_code, \<lambda>bs. case pb_decode lib bs of None \<Rightarrow> Inl BlockDecodeError | Some n \<Rightarrow> Inr (PBValue n)),
     (raw_code, \<lambda>bs. Inr (RawValue bs)),
     (cbor_code, \<lambda>bs. case cbor_decode lib bs of None \<Rightarrow> Inl BlockDecodeError | Some ls \<Rightarrow> Inr (CborValue ls))]"

text \<open>\<^verbatim>\<open>Block.links()\<close>: the \<open>Hash\<close> of every link of a DAG-PB node, nothing for raw bytes.\<close>

fun links :: "Value \<Rightarrow> CID list" where
  "links (PBValue n) = map Hash (Links n)"
| "links (RawValue bs) = []"
| "links (CborValue ls) = ls"

text \<open>\<^verbatim>\<open>x || 0\<close> on an optional number: \<open>undefined\<close> and \<open>0\<close> are both falsy.\<close>

definition orZero :: "nat option \<Rightarrow> nat" where
  "orZero x = (case x of None \<Rightarrow> 0 | Some t \<Rightarrow> if t = 0 then 0 else t)"

text \<open>
  \<^verbatim>\<open>a + b\<close> on two numbers that hold non-negative integers: the exact sum, rounded to the
  nearest double, a tie going to the even significand. A double has a significand of 53
  bits: every integer below \<open>2^53\<close> is a double, and above it \<open>exponent\<close> counts the low bits
  that are rounded away. (A sum of \<open>2^1024\<close> or more, which is \<^verbatim>\<open>Infinity\<close> in JavaScript, is
  beyond what the sizes of an archive reach and is not modelled.)
\<close>

fun exponent :: "nat \<Rightarrow> nat" where
  "exponent n = (if n < 2 ^ 53 then 0 else Suc (exponent (n div 2)))"

declare exponent.simps [simp del]

definition roundDouble :: "nat \<Rightarrow> nat" where
  "roundDouble n =
     (let e = exponent n; q = n div 2 ^ e; r = n mod 2 ^ e in
      (if 2 * r > 2 ^ e \<or> (2 * r = 2 ^ e \<and> odd q) then q + 1 else q) * 2 ^ e)"

definition jsAdd :: "nat \<Rightarrow> nat \<Rightarrow> nat" where
  "jsAdd a b = roundDouble (a + b)"

definition cumulativeSize :: "byte list \<Rightarrow> PBNode \<Rightarrow> nat" where
  "cumulativeSize pbNodeBytes pbNode =
     jsAdd (length pbNodeBytes)
       (foldl (\<lambda>acc curr. jsAdd acc (orZero (Tsize curr))) 0 (Links pbNode))"

definition carStat :: "Lib \<Rightarrow> byte list \<Rightarrow> error + (CID \<times> CarBlockIterator)" where
  "carStat lib carBytes =
     (case fromBytes lib carBytes of
        Inl e \<Rightarrow> Inl e
      | Inr blocksIterator \<Rightarrow>
          (let roots = getRoots blocksIterator in
           if length roots = 0 then Inl MissingRoots
           else if length roots > 1 then Inl TooManyRoots
           else Inr (roots ! 0, blocksIterator)))"

text \<open>
  The recursion of \<^verbatim>\<open>iterateDag\<close> follows the links of the blocks, which the CAR reader does
  not check against their hashes: a block may link to itself. The first argument is the
  depth of nested calls that the stack has room for; \<open>None\<close> is a walk that needs a deeper
  stack (JavaScript then throws a \<^verbatim>\<open>RangeError\<close>). \<open>iterateLinks\<close> is the
  \<^verbatim>\<open>for (const link of bLinks)\<close> loop.
\<close>

fun iterateDag :: "nat \<Rightarrow> Lib \<Rightarrow> Block \<Rightarrow> Block list \<Rightarrow> (error + bool) option"
  and iterateLinks :: "nat \<Rightarrow> Lib \<Rightarrow> CID list \<Rightarrow> Block list \<Rightarrow> (error + bool) option" where
  "iterateDag 0 lib rawBlock blocks = None"
| "iterateDag (Suc n) lib rawBlock blocks =
     (case find (\<lambda>d. fst d = code (cid rawBlock)) (decoders lib) of
        None \<Rightarrow> Some (Inl TypeError)
      | Some decoder \<Rightarrow>
          (case snd decoder (bytes rawBlock) of
             Inl e \<Rightarrow> Some (Inl e)
           | Inr v \<Rightarrow> iterateLinks n lib (links v) blocks))"
| "iterateLinks n lib [] blocks = Some (Inr True)"
| "iterateLinks n lib (link # rest) blocks =
     (case find (\<lambda>b. cid b = link) blocks of
        None \<Rightarrow> Some (Inr False)
      | Some existingBlock \<Rightarrow>
          (case iterateDag n lib existingBlock blocks of
             None \<Rightarrow> None
           | Some (Inl e) \<Rightarrow> Some (Inl e)
           | Some (Inr complete) \<Rightarrow>
               if \<not> complete then Some (Inr False) else iterateLinks n lib rest blocks))"

text \<open>
  The \<^verbatim>\<open>for await\<close> loop of \<^verbatim>\<open>inspectCarBlocks\<close>, with its two variables
  \<open>rawRootBlock\<close> and \<open>blocks\<close>.
\<close>

fun readBlocks :: "CID \<Rightarrow> Block list \<Rightarrow> bool \<Rightarrow> Block option \<Rightarrow> Block list
    \<Rightarrow> error + (Block option \<times> Block list)" where
  "readBlocks root [] bad rawRootBlock blocks =
     (if bad then Inl CarDecodeError else Inr (rawRootBlock, blocks))"
| "readBlocks root (block # remaining) bad rawRootBlock blocks =
     (let blockSize = length (bytes block) in
      if blockSize > MAX_BLOCK_SIZE then Inl (BlockTooBig blockSize)
      else readBlocks root remaining bad
             (if rawRootBlock = None \<and> cid block = root then Some block else rawRootBlock)
             (blocks @ [block]))"

definition inspectCarBlocks :: "nat \<Rightarrow> Lib \<Rightarrow> CID \<Rightarrow> CarBlockIterator
    \<Rightarrow> (error + Inspection) option" where
  "inspectCarBlocks n lib root blocksIterator =
     (case readBlocks root (yielded blocksIterator) (malformed blocksIterator) None [] of
        Inl e \<Rightarrow> Some (Inl e)
      | Inr (rawRootBlock, blocks) \<Rightarrow>
          if length blocks = 0 then Some (Inl EmptyCAR)
          else (case rawRootBlock of
             None \<Rightarrow> Some (Inl MissingRootBlock)
           | Some rootBlock \<Rightarrow>
               (case find (\<lambda>d. fst d = code root) (decoders lib) of
                  None \<Rightarrow> Some (Inr \<lparr>rootCid = root, structure = None, size' = None\<rparr>)
                | Some decoder \<Rightarrow>
                    (case snd decoder (bytes rootBlock) of
                       Inl e \<Rightarrow> Some (Inl e)
                     | Inr v \<Rightarrow>
                         (case (if code (cid rootBlock) = pb_code
                                then (case v of
                                        PBValue pbNode \<Rightarrow> Inr (Some (cumulativeSize (bytes rootBlock) pbNode))
                                      | _ \<Rightarrow> Inl TypeError)
                                else Inr None) of
                            Inl e \<Rightarrow> Some (Inl e)
                          | Inr sz \<Rightarrow>
                              if length blocks = 1 \<and> code root = raw_code
                              then Some (Inr \<lparr>rootCid = root, structure = Some ''Complete'', size' = sz\<rparr>)
                              else (case iterateDag n lib rootBlock blocks of
                                      None \<Rightarrow> None
                                    | Some (Inl e) \<Rightarrow> Some (Inl e)
                                    | Some (Inr isComplete) \<Rightarrow>
                                        Some (Inr \<lparr>rootCid = root,
                                          structure = Some (if isComplete then ''Complete'' else ''Partial''),
                                          size' = sz\<rparr>)))))))"

section \<open>index.js\<close>

definition MAX_SIZE_TO_ATTEMPT :: nat where
  "MAX_SIZE_TO_ATTEMPT = 100 * 1024 * 1024"

text \<open>\<^verbatim>\<open>a || b\<close> on optional strings: \<open>undefined\<close> and the empty string are falsy.\<close>

definition orElse :: "string option \<Rightarrow> string option \<Rightarrow> string option" where
  "orElse a b = (case a of None \<Rightarrow> b | Some s \<Rightarrow> if s = [] then b else Some s)"

definition inspectCar :: "nat \<Rightarrow> Lib \<Rightarrow> byte list \<Rightarrow> (string \<rightharpoonup> string)
    \<Rightarrow> (error + Inspection) option" where
  "inspectCar n lib body metadata =
     (case carStat lib body of
        Inl err \<Rightarrow> Some (Inl err)
      | Inr (root, blocksIterator) \<Rightarrow>
          (case inspectCarBlocks n lib root blocksIterator of
             None \<Rightarrow> None
           | Some (Inl err) \<Rightarrow> Some (Inl err)
           | Some (Inr inspection) \<Rightarrow>
               Some (Inr \<lparr>rootCid = root,
                 structure = orElse (structure inspection) (metadata ''structure''),
                 size' = size' inspection\<rparr>)))"

text \<open>
  The collaborators of \<^verbatim>\<open>main\<close>: the S3 object of the event (its body and metadata), the
  sizes that \<^verbatim>\<open>listObjectsV2\<close> reports under the prefix, and the gateway, which answers a
  fetch of the URL of a root with \<^verbatim>\<open>response.ok\<close>. Each may throw.
\<close>

record Env =
  getObject :: "error + (byte list \<times> (string \<rightharpoonup> string))"
  listObjectsV2 :: "error + nat list"
  fetch :: "CID \<Rightarrow> error + bool"

text \<open>
  What \<^verbatim>\<open>main\<close> does besides returning: its requests to S3 and to the gateway, and its
  \<^verbatim>\<open>logger.info\<close> lines, in order.
\<close>

datatype effect =
    GetObject
  | ListObjectsV2
  | Fetch CID
  | InfoNoSize
  | InfoTooLarge
  | InfoNotUploaded
  | InfoRequested

text \<open>
  \<^verbatim>\<open>main\<close> returns \<^verbatim>\<open>{ rootCid, structure }\<close> when it does not fetch and
  \<^verbatim>\<open>{ rootCid, structure, response }\<close> after a fetch; the response is its \<^verbatim>\<open>ok\<close>.
\<close>

datatype MainReturn =
    NoResponse CID "string option"
  | WithResponse CID "string option" bool

definition getDirectoryStat :: "Env \<Rightarrow> error + nat" where
  "getDirectoryStat env =
     (case listObjectsV2 env of
        Inl err \<Rightarrow> Inl err
      | Inr contents \<Rightarrow> Inr (foldl (\<lambda>acc obj. jsAdd acc obj) 0 contents))"

text \<open>The end of \<^verbatim>\<open>main\<close>, from \<^verbatim>\<open>// Fetch from gateway\<close>.\<close>

definition fetchFromGateway :: "Env \<Rightarrow> CID \<Rightarrow> string option \<Rightarrow> effect list \<times> (error + MainReturn)" where
  "fetchFromGateway env root struct =
     (case fetch env root of
        Inl err \<Rightarrow> ([Fetch root], Inl err)
      | Inr ok \<Rightarrow>
          if \<not> ok then ([Fetch root], Inl FailedToFetch)
          else ([Fetch root, InfoRequested], Inr (WithResponse root struct ok)))"

text \<open>
  \<^verbatim>\<open>main\<close> from the result of \<^verbatim>\<open>inspectCar\<close> on: the test of the structure and the fetch.
  \<^verbatim>\<open>!size\<close> holds for an undefined size and for the size 0.
\<close>

definition decideAndFetch :: "Env \<Rightarrow> Inspection \<Rightarrow> effect list \<times> (error + MainReturn)" where
  "decideAndFetch env inspection =
     (let root = rootCid inspection; struct = structure inspection in
      if struct \<noteq> Some ''Complete'' then
        (case size' inspection of
           None \<Rightarrow> ([InfoNoSize], Inr (NoResponse root struct))
         | Some sz \<Rightarrow>
             if sz = 0 then ([InfoNoSize], Inr (NoResponse root struct))
             else if sz > MAX_SIZE_TO_ATTEMPT then ([InfoTooLarge], Inr (NoResponse root struct))
             else (case getDirectoryStat env of
                     Inl err \<Rightarrow> ([ListObjectsV2], Inl err)
                   | Inr accumSize \<Rightarrow>
                       if sz > accumSize
                       then ([ListObjectsV2, InfoNotUploaded], Inr (NoResponse root struct))
                       else (let (effects, r) = fetchFromGateway env root struct
                             in (ListObjectsV2 # effects, r))))
      else fetchFromGateway env root struct)"

definition main :: "nat \<Rightarrow> Lib \<Rightarrow> Env \<Rightarrow> (effect list \<times> (error + MainReturn)) option" where
  "main n lib env =
     (case getObject env of
        Inl err \<Rightarrow> Some ([GetObject], Inl err)
      | Inr (body, metadata) \<Rightarrow>
          (case inspectCar n lib body metadata of
             None \<Rightarrow> None
           | Some (Inl err) \<Rightarrow> Some ([GetObject], Inl err)
           | Some (Inr inspection) \<Rightarrow>
               (let (effects, r) = decideAndFetch env inspection
                in Some (GetObject # effects, r))))"

text \<open>The decision of \<^verbatim>\<open>main\<close>, read off its effects: it attempts when it fetches.\<close>

definition attempts :: "effect list \<times> (error + MainReturn) \<Rightarrow> bool" where
  "attempts r = list_ex (\<lambda>e. case e of Fetch c \<Rightarrow> True | _ \<Rightarrow> False) (fst r)"

definition defers :: "effect list \<times> (error + MainReturn) \<Rightarrow> bool" where
  "defers r = (\<not> attempts r \<and> (case snd r of Inr (NoResponse c s) \<Rightarrow> True | _ \<Rightarrow> False))"

section \<open>The DAG of an archive\<close>

text \<open>The codecs that \<open>decoders\<close> holds.\<close>

definition supported :: "nat \<Rightarrow> bool" where
  "supported k = (k = pb_code \<or> k = raw_code \<or> k = cbor_code)"

text \<open>
  What the walk gets from a block: \<^verbatim>\<open>decoders.find\<close>, then \<^verbatim>\<open>decoder.decode\<close>, which is a
  \<^verbatim>\<open>TypeError\<close> on the \<open>undefined\<close> that \<^verbatim>\<open>find\<close> returns for an unknown codec.
\<close>

definition decodeBlock :: "Lib \<Rightarrow> Block \<Rightarrow> error + Value" where
  "decodeBlock lib b =
     (case find (\<lambda>d. fst d = code (cid b)) (decoders lib) of
        None \<Rightarrow> Inl TypeError
      | Some decoder \<Rightarrow> snd decoder (bytes b))"

text \<open>
  The links of an identifier in an archive: those of the first block that has it (the one
  \<^verbatim>\<open>blocks.find\<close> returns), when that block decodes; none otherwise.
\<close>

definition linksOf :: "Lib \<Rightarrow> Block list \<Rightarrow> CID \<Rightarrow> CID list" where
  "linksOf lib blocks c =
     (case find (\<lambda>b. cid b = c) blocks of
        None \<Rightarrow> []
      | Some b \<Rightarrow> (case decodeBlock lib b of Inl e \<Rightarrow> [] | Inr v \<Rightarrow> links v))"

definition linkRel :: "Lib \<Rightarrow> Block list \<Rightarrow> (CID \<times> CID) set" where
  "linkRel lib blocks = {(c, l). l \<in> set (linksOf lib blocks c)}"

text \<open>The identifiers reachable from a root by following links, the root included.\<close>

definition reachable :: "Lib \<Rightarrow> Block list \<Rightarrow> CID \<Rightarrow> CID set" where
  "reachable lib blocks root = (linkRel lib blocks)\<^sup>* `` {root}"

definition allPresent :: "Lib \<Rightarrow> Block list \<Rightarrow> CID \<Rightarrow> bool" where
  "allPresent lib blocks root = (reachable lib blocks root \<subseteq> cid ` set blocks)"

text \<open>Every block of the archive that is reachable from the root decodes.\<close>

definition allDecode :: "Lib \<Rightarrow> Block list \<Rightarrow> CID \<Rightarrow> bool" where
  "allDecode lib blocks root =
     (\<forall>c \<in> reachable lib blocks root.
        case find (\<lambda>b. cid b = c) blocks of None \<Rightarrow> True | Some b \<Rightarrow> \<not> isl (decodeBlock lib b))"

text \<open>The links between the identifiers reachable from the root.\<close>

definition walkRel :: "Lib \<Rightarrow> Block list \<Rightarrow> CID \<Rightarrow> (CID \<times> CID) set" where
  "walkRel lib blocks root =
     {(c, l). c \<in> reachable lib blocks root \<and> l \<in> set (linksOf lib blocks c)}"

text \<open>
  The blocks that the walk from a block decodes, with a stack of a given depth: the block
  itself and, when it decodes, the blocks that the loop over its links reaches. The loop
  reaches what the walk from the block of its first link reaches and, when that walk is
  complete, what the loop over the later links reaches.
\<close>

fun walkReaches :: "nat \<Rightarrow> Lib \<Rightarrow> Block list \<Rightarrow> Block \<Rightarrow> Block \<Rightarrow> bool"
  and linksReach :: "nat \<Rightarrow> Lib \<Rightarrow> Block list \<Rightarrow> CID list \<Rightarrow> Block \<Rightarrow> bool" where
  "walkReaches 0 lib blocks b target = False"
| "walkReaches (Suc n) lib blocks b target =
     (b = target \<or>
      (case decodeBlock lib b of
         Inl e \<Rightarrow> False
       | Inr v \<Rightarrow> linksReach n lib blocks (links v) target))"
| "linksReach n lib blocks [] target = False"
| "linksReach n lib blocks (link # rest) target =
     (case find (\<lambda>x. cid x = link) blocks of
        None \<Rightarrow> False
      | Some existingBlock \<Rightarrow>
          walkReaches n lib blocks existingBlock target
          \<or> (iterateDag n lib existingBlock blocks = Some (Inr True)
              \<and> linksReach n lib blocks rest target))"

text \<open>
  The sum that \<^verbatim>\<open>cumulativeSize\<close> is meant to be, in exact arithmetic: the length of the
  bytes and the \<open>Tsize\<close> of every link, 0 for a link without one.
\<close>

definition exactSize :: "byte list \<Rightarrow> PBNode \<Rightarrow> nat" where
  "exactSize pbNodeBytes pbNode =
     length pbNodeBytes + (\<Sum>l\<leftarrow>Links pbNode. case Tsize l of None \<Rightarrow> 0 | Some t \<Rightarrow> t)"

text \<open>
  A fact about \<^verbatim>\<open>@ipld/dag-pb\<close> that the decision of \<^verbatim>\<open>main\<close> depends on: a link takes bytes
  in its node, so the decoder finds no link in a block of zero bytes.
\<close>

definition emptyNodeHasNoLinks :: "Lib \<Rightarrow> bool" where
  "emptyNodeHasNoLinks lib =
     (case pb_decode lib [] of None \<Rightarrow> True | Some pbNode \<Rightarrow> Links pbNode = [])"

section \<open>Example inputs\<close>

definition pbCid :: "byte list \<Rightarrow> CID" where
  "pbCid digest = \<lparr>version = 1, code = 0x70, multihash = digest\<rparr>"

definition rawCid :: CID where
  "rawCid = \<lparr>version = 1, code = 0x55, multihash = [7]\<rparr>"

definition otherCid :: CID where
  "otherCid = \<lparr>version = 1, code = 0x99, multihash = [9]\<rparr>"

definition rawBlock :: Block where
  "rawBlock = \<lparr>cid = rawCid, bytes = [21, 31]\<rparr>"

definition otherBlock :: Block where
  "otherBlock = \<lparr>cid = otherCid, bytes = [0]\<rparr>"

definition pbBlock :: "byte list \<Rightarrow> Block" where
  "pbBlock bs = \<lparr>cid = pbCid bs, bytes = bs\<rparr>"

definition pbLink :: "CID \<Rightarrow> nat option \<Rightarrow> PBLink" where
  "pbLink c t = \<lparr>Hash = c, Name = Some ''file.txt'', Tsize = t\<rparr>"

text \<open>
  An example decoder: the bytes \<open>[1]\<close> are a directory with a link to the raw block, the bytes
  \<open>[2]\<close> one with a second link, to a block of a codec that has no decoder, the bytes \<open>[3]\<close>
  a node that links to itself, and the empty bytes are the empty node.
\<close>

definition examplePb :: "byte list \<Rightarrow> PBNode option" where
  "examplePb bs =
     (if bs = [] then Some \<lparr>Data = None, Links = []\<rparr>
      else if bs = [1] then Some \<lparr>Data = None, Links = [pbLink rawCid (Some 2)]\<rparr>
      else if bs = [2] then Some \<lparr>Data = None, Links = [pbLink rawCid (Some 2), pbLink otherCid None]\<rparr>
      else if bs = [3] then Some \<lparr>Data = None, Links = [pbLink (pbCid [3]) (Some 0)]\<rparr>
      else None)"

definition exampleLib :: "CarBlockIterator \<Rightarrow> Lib" where
  "exampleLib it = \<lparr>fromBytes = (\<lambda>bs. Inr it), pb_decode = examplePb, cbor_decode = (\<lambda>bs. None)\<rparr>"

definition car :: "CID list \<Rightarrow> Block list \<Rightarrow> CarBlockIterator" where
  "car roots blocks = \<lparr>getRoots = roots, yielded = blocks, malformed = False\<rparr>"

definition exampleEnv :: "nat list \<Rightarrow> Env" where
  "exampleEnv contents =
     \<lparr>getObject = Inl S3Error, listObjectsV2 = Inr contents, fetch = (\<lambda>c. Inr True)\<rparr>"

text \<open>
  A decoder that reads a block of 53 bytes as a node with one link, to the raw block, whose
  \<open>Tsize\<close> is \<open>2^53\<close>: what a DAG-PB block of that length can encode.
\<close>

definition largePb :: "byte list \<Rightarrow> PBNode option" where
  "largePb bs =
     (if length bs = 53 then Some \<lparr>Data = None, Links = [pbLink rawCid (Some (2 ^ 53))]\<rparr>
      else None)"

definition largeLib :: Lib where
  "largeLib = \<lparr>fromBytes = (\<lambda>bs. Inl CarDecodeError), pb_decode = largePb, cbor_decode = (\<lambda>bs. None)\<rparr>"

text \<open>A raw block of \<open>n\<close> zero bytes.\<close>

definition zeroBlock :: "nat \<Rightarrow> Block" where
  "zeroBlock n = \<lparr>cid = rawCid, bytes = replicate n 0\<rparr>"

section \<open>Auxiliary facts\<close>

lemma find_decoder_None:
  "find (\<lambda>d. fst d = k) (decoders lib) = None \<longleftrightarrow> \<not> supported k"
  by (auto simp add: decoders_def supported_def)

lemma find_decoder_error:
  "find (\<lambda>d. fst d = k) (decoders lib) = Some d \<Longrightarrow> snd d bs = Inl e \<Longrightarrow> e = BlockDecodeError"
  by (auto simp add: decoders_def split: if_splits option.splits)

lemma find_decoder_pb:
  "find (\<lambda>d. fst d = pb_code) (decoders lib) = Some d \<Longrightarrow> snd d bs = Inr v
    \<Longrightarrow> \<exists>pbNode. pb_decode lib bs = Some pbNode \<and> v = PBValue pbNode"
  by (auto simp add: decoders_def split: if_splits option.splits)

lemma walk_errors:
  "iterateDag n lib b blocks = Some (Inl e) \<Longrightarrow> e = TypeError \<or> e = BlockDecodeError"
  "iterateLinks n lib ls blocks = Some (Inl e) \<Longrightarrow> e = TypeError \<or> e = BlockDecodeError"
proof (induction n lib b blocks and n lib ls blocks rule: iterateDag_iterateLinks.induct)
  case (1 lib rawBlock blocks)
  then show ?case by simp
next
  case (2 n lib rawBlock blocks)
  then show ?case
    by (auto split: option.splits sum.splits dest: find_decoder_error)
next
  case (3 n lib blocks)
  then show ?case by simp
next
  case (4 n lib link rest blocks)
  then show ?case
    by (auto split: option.splits sum.splits if_splits)
qed

lemma readBlocks_eq:
  "readBlocks root bs bad rr acc =
     (case find (\<lambda>b. length (bytes b) > MAX_BLOCK_SIZE) bs of
        Some b \<Rightarrow> Inl (BlockTooBig (length (bytes b)))
      | None \<Rightarrow>
          if bad then Inl CarDecodeError
          else Inr (case rr of None \<Rightarrow> find (\<lambda>b. cid b = root) bs | Some r \<Rightarrow> Some r, acc @ bs))"
  by (induction bs arbitrary: rr acc) (auto simp add: Let_def split: option.splits)

lemma inspectCarBlocks_big:
  "find (\<lambda>b. length (bytes b) > MAX_BLOCK_SIZE) (yielded it) = Some b
    \<Longrightarrow> inspectCarBlocks n lib root it = Some (Inl (BlockTooBig (length (bytes b))))"
  by (simp add: inspectCarBlocks_def readBlocks_eq)

lemma inspectCarBlocks_Inr:
  assumes "inspectCarBlocks n lib root it = Some (Inr r)"
  shows "\<exists>rootBlock. readBlocks root (yielded it) (malformed it) None [] = Inr (Some rootBlock, yielded it)
           \<and> find (\<lambda>b. cid b = root) (yielded it) = Some rootBlock
           \<and> find (\<lambda>b. length (bytes b) > MAX_BLOCK_SIZE) (yielded it) = None
           \<and> \<not> malformed it"
  using assms
  by (auto simp add: inspectCarBlocks_def readBlocks_eq split: option.splits if_splits)

lemma inspectCarBlocks_after_loop:
  assumes "readBlocks root (yielded it) (malformed it) None [] = Inr (Some rootBlock, blocks)"
  shows "inspectCarBlocks n lib root it =
     (case find (\<lambda>d. fst d = code root) (decoders lib) of
        None \<Rightarrow> Some (Inr \<lparr>rootCid = root, structure = None, size' = None\<rparr>)
      | Some decoder \<Rightarrow>
          (case snd decoder (bytes rootBlock) of
             Inl e \<Rightarrow> Some (Inl e)
           | Inr v \<Rightarrow>
               (case (if code (cid rootBlock) = pb_code
                      then (case v of
                              PBValue pbNode \<Rightarrow> Inr (Some (cumulativeSize (bytes rootBlock) pbNode))
                            | _ \<Rightarrow> Inl TypeError)
                      else Inr None) of
                  Inl e \<Rightarrow> Some (Inl e)
                | Inr sz \<Rightarrow>
                    if length blocks = 1 \<and> code root = raw_code
                    then Some (Inr \<lparr>rootCid = root, structure = Some ''Complete'', size' = sz\<rparr>)
                    else (case iterateDag n lib rootBlock blocks of
                            None \<Rightarrow> None
                          | Some (Inl e) \<Rightarrow> Some (Inl e)
                          | Some (Inr isComplete) \<Rightarrow>
                              Some (Inr \<lparr>rootCid = root,
                                structure = Some (if isComplete then ''Complete'' else ''Partial''),
                                size' = sz\<rparr>)))))"
proof -
  from assms have "blocks = yielded it" "find (\<lambda>b. cid b = root) (yielded it) = Some rootBlock"
    by (auto simp add: readBlocks_eq split: option.splits if_splits)
  then have "blocks \<noteq> []"
    by auto
  with assms show ?thesis
    by (simp add: inspectCarBlocks_def)
qed

lemma inspectCarBlocks_errors:
  assumes "inspectCarBlocks n lib root it = Some (Inl e)"
  shows "(\<exists>b. find (\<lambda>b. length (bytes b) > MAX_BLOCK_SIZE) (yielded it) = Some b
            \<and> e = BlockTooBig (length (bytes b)))
         \<or> e \<in> {CarDecodeError, EmptyCAR, MissingRootBlock, BlockDecodeError, TypeError}"
proof (cases "readBlocks root (yielded it) (malformed it) None []")
  case (Inl e')
  with assms have "e' = e"
    by (simp add: inspectCarBlocks_def)
  with Inl show ?thesis
    by (auto simp add: readBlocks_eq split: option.splits if_splits)
next
  case (Inr p)
  show ?thesis
  proof (cases "fst p")
    case None
    with Inr assms show ?thesis
      by (cases p) (auto simp add: inspectCarBlocks_def split: if_splits)
  next
    case (Some rootBlock)
    with Inr have "readBlocks root (yielded it) (malformed it) None [] = Inr (Some rootBlock, snd p)"
      by (cases p) simp
    from assms [unfolded inspectCarBlocks_after_loop [OF this]]
    have "e = TypeError \<or> e = BlockDecodeError"
      by (auto split: option.splits sum.splits if_splits Value.splits
          dest: find_decoder_error walk_errors(1))
    then show ?thesis
      by auto
  qed
qed

lemma exponent_small: "n < 2 ^ 53 \<Longrightarrow> exponent n = 0"
  by (simp add: exponent.simps)

lemma roundDouble_small: "n < 2 ^ 53 \<Longrightarrow> roundDouble n = n"
  by (simp add: roundDouble_def exponent_small)

lemma exponent_quotient: "0 < n \<Longrightarrow> 0 < n div 2 ^ exponent n"
proof (induction n rule: exponent.induct)
  case (1 n)
  show ?case
  proof (cases "n < 2 ^ 53")
    case True
    with "1.prems" show ?thesis
      by (simp add: exponent_small)
  next
    case False
    then have "0 < n div 2"
      by simp
    from "1.IH" [OF False this] False show ?thesis
      by (simp add: exponent.simps [of n] div_mult2_eq)
  qed
qed

lemma roundDouble_pos: "0 < n \<Longrightarrow> 0 < roundDouble n"
  using exponent_quotient [of n] by (simp add: roundDouble_def Let_def)

lemma jsAdd_exact: "a + b < 2 ^ 53 \<Longrightarrow> jsAdd a b = a + b"
  by (simp add: jsAdd_def roundDouble_small)

lemma jsAdd_zero: "jsAdd a b = 0 \<longleftrightarrow> a = 0 \<and> b = 0"
proof
  assume z: "jsAdd a b = 0"
  have "a + b = 0"
  proof (rule ccontr)
    assume "a + b \<noteq> 0"
    then have "0 < roundDouble (a + b)"
      by (simp add: roundDouble_pos)
    with z show False
      by (simp add: jsAdd_def)
  qed
  then show "a = 0 \<and> b = 0"
    by simp
next
  assume "a = 0 \<and> b = 0"
  then show "jsAdd a b = 0"
    by (simp add: jsAdd_def roundDouble_small)
qed

lemma foldl_jsAdd_exact:
  "a + sum_list (map f xs) < 2 ^ 53
    \<Longrightarrow> foldl (\<lambda>acc curr. jsAdd acc (f curr)) a xs = a + sum_list (map f xs)"
proof (induction xs arbitrary: a)
  case Nil
  then show ?case by simp
next
  case (Cons x xs)
  from Cons.prems have "a + f x < 2 ^ 53"
    by simp
  then have "jsAdd a (f x) = a + f x"
    by (rule jsAdd_exact)
  with Cons.IH [of "a + f x"] Cons.prems show ?case
    by (simp add: add.assoc)
qed

lemma orZero_eq: "orZero x = (case x of None \<Rightarrow> 0 | Some t \<Rightarrow> t)"
  by (simp add: orZero_def split: option.split)

lemma cumulativeSize_exact:
  assumes "exactSize bs pbNode < 2 ^ 53"
  shows "cumulativeSize bs pbNode = exactSize bs pbNode"
proof -
  let ?f = "\<lambda>l. case Tsize l of None \<Rightarrow> 0 | Some t \<Rightarrow> t"
  from assms have "0 + sum_list (map ?f (Links pbNode)) < 2 ^ 53"
    by (simp add: exactSize_def)
  then have "foldl (\<lambda>acc curr. jsAdd acc (?f curr)) 0 (Links pbNode) = sum_list (map ?f (Links pbNode))"
    using foldl_jsAdd_exact [of 0 ?f "Links pbNode"] by simp
  with assms show ?thesis
    by (simp add: cumulativeSize_def exactSize_def orZero_eq jsAdd_exact)
qed

lemma cumulativeSize_zero: "cumulativeSize bs pbNode = 0 \<Longrightarrow> bs = []"
  by (simp add: cumulativeSize_def jsAdd_zero)

lemma find_decoder_pb_eq:
  "find (\<lambda>d. fst d = pb_code) (decoders lib) =
     Some (pb_code, \<lambda>bs. case pb_decode lib bs of
                            None \<Rightarrow> Inl BlockDecodeError
                          | Some n \<Rightarrow> Inr (PBValue n))"
  by (simp add: decoders_def)

lemma pb_not_raw: "pb_code \<noteq> raw_code"
  by (simp add: pb_code_def raw_code_def)

lemma inspectCarBlocks_size:
  assumes "inspectCarBlocks n lib root it = Some (Inr r)"
    and "find (\<lambda>b. cid b = root) (yielded it) = Some rootBlock"
  shows "size' r = (if code root = pb_code
           then map_option (cumulativeSize (bytes rootBlock)) (pb_decode lib (bytes rootBlock))
           else None)
         \<and> (code root = pb_code \<longrightarrow> pb_decode lib (bytes rootBlock) \<noteq> None)"
proof -
  from inspectCarBlocks_Inr [OF assms(1)] assms(2)
  have rd: "readBlocks root (yielded it) (malformed it) None [] = Inr (Some rootBlock, yielded it)"
    by auto
  from assms(2) have c: "cid rootBlock = root"
    by (auto simp add: find_Some_iff)
  note u = assms(1) [unfolded inspectCarBlocks_after_loop [OF rd]]
  show ?thesis
  proof (cases "code root = pb_code")
    case True
    with u c show ?thesis
      by (auto simp add: find_decoder_pb_eq pb_not_raw split: option.splits sum.splits if_splits)
  next
    case False
    with u c show ?thesis
      by (auto split: option.splits sum.splits if_splits)
  qed
qed

lemma find_decoder_Some:
  "find (\<lambda>d. fst d = k) (decoders lib) = Some d \<Longrightarrow> supported k"
  using find_decoder_None [of k lib] by simp

lemma carStat_cases:
  assumes "fromBytes lib carBytes = Inr it"
  shows "length (getRoots it) = 0 \<Longrightarrow> carStat lib carBytes = Inl MissingRoots"
    and "length (getRoots it) > 1 \<Longrightarrow> carStat lib carBytes = Inl TooManyRoots"
    and "length (getRoots it) = 1 \<Longrightarrow> carStat lib carBytes = Inr (getRoots it ! 0, it)"
  using assms by (auto simp add: carStat_def Let_def)

lemma iterateDag_unsupported:
  "\<not> supported (code (cid b)) \<Longrightarrow> iterateDag (Suc n) lib b blocks = Some (Inl TypeError)"
  by (simp add: find_decoder_None [THEN iffD2])

lemma inspectCarBlocks_walk_error:
  assumes rd: "readBlocks root (yielded it) (malformed it) None [] = Inr (Some rootBlock, blocks)"
    and sup: "supported (code root)"
    and walk: "iterateDag n lib rootBlock blocks = Some (Inl e)"
  shows "inspectCarBlocks n lib root it = Some (Inl e)"
proof -
  from rd have c: "cid rootBlock = root"
    by (auto simp add: readBlocks_eq find_Some_iff split: option.splits if_splits)
  from walk obtain m where n: "n = Suc m"
    by (cases n) auto
  from sup obtain d where d: "find (\<lambda>d. fst d = code root) (decoders lib) = Some d"
    using find_decoder_None [of "code root" lib] by auto
  show ?thesis
  proof (cases "snd d (bytes rootBlock)")
    case (Inl e')
    with walk d c n show ?thesis
      by (simp add: inspectCarBlocks_after_loop [OF rd])
  next
    case (Inr v)
    show ?thesis
    proof (cases "code root = pb_code")
      case True
      with d Inr obtain pbNode where "v = PBValue pbNode"
        by (auto dest: find_decoder_pb)
      with walk d c n Inr True show ?thesis
        by (auto simp add: inspectCarBlocks_after_loop [OF rd] pb_not_raw)
    next
      case False
      show ?thesis
      proof (cases "code root = raw_code")
        case True
        with d have "snd d (bytes rootBlock) = Inr (RawValue (bytes rootBlock))"
          by (auto simp add: decoders_def pb_not_raw)
        with walk d c n True show ?thesis
          by simp
      next
        case raw: False
        with walk d c n Inr False show ?thesis
          by (simp add: inspectCarBlocks_after_loop [OF rd])
      qed
    qed
  qed
qed

text \<open>The example inputs, evaluated.\<close>

lemmas example_defs =
  car_def exampleLib_def examplePb_def pbBlock_def pbCid_def rawBlock_def rawCid_def
  otherBlock_def otherCid_def pbLink_def zeroBlock_def decoders_def pb_code_def raw_code_def
  cbor_code_def MAX_BLOCK_SIZE_def cumulativeSize_def orZero_def supported_def
  jsAdd_def roundDouble_small

lemma iterateLinks_append:
  "iterateLinks n lib (pre @ rest) blocks =
     (case iterateLinks n lib pre blocks of
        Some (Inr True) \<Rightarrow> iterateLinks n lib rest blocks
      | other \<Rightarrow> other)"
  by (induction pre) (auto split: option.splits sum.splits)

lemma example_complete:
  "inspectCarBlocks (Suc (Suc 0)) (exampleLib it) (pbCid [1]) (car [pbCid [1]] [pbBlock [1], rawBlock])
     = Some (Inr \<lparr>rootCid = pbCid [1], structure = Some ''Complete'', size' = Some 3\<rparr>)"
  by (simp add: inspectCarBlocks_def example_defs)

lemma example_partial:
  "inspectCarBlocks (Suc (Suc 0)) (exampleLib it) (pbCid [1]) (car [pbCid [1]] [pbBlock [1]])
     = Some (Inr \<lparr>rootCid = pbCid [1], structure = Some ''Partial'', size' = Some 3\<rparr>)"
  by (simp add: inspectCarBlocks_def example_defs)

lemma example_raw:
  "inspectCarBlocks 0 (exampleLib it) rawCid (car [rawCid] [rawBlock])
     = Some (Inr \<lparr>rootCid = rawCid, structure = Some ''Complete'', size' = None\<rparr>)"
  by (simp add: inspectCarBlocks_def example_defs)

lemma example_other_root:
  "inspectCarBlocks n (exampleLib it) otherCid (car [otherCid] [otherBlock])
     = Some (Inr \<lparr>rootCid = otherCid, structure = None, size' = None\<rparr>)"
  by (simp add: inspectCarBlocks_def example_defs)

lemma example_other_child:
  "iterateDag (Suc (Suc 0)) (exampleLib it) (pbBlock [2]) [pbBlock [2], rawBlock, otherBlock]
     = Some (Inl TypeError)"
  by (simp add: example_defs)

lemma example_max_block:
  "inspectCarBlocks 0 (exampleLib it) rawCid (car [rawCid] [zeroBlock 1048576])
     = Some (Inr \<lparr>rootCid = rawCid, structure = Some ''Complete'', size' = None\<rparr>)"
  by (simp add: inspectCarBlocks_def example_defs)

lemma carStat_example:
  "carStat (exampleLib (car [r] bs)) body = Inr (r, car [r] bs)"
  by (simp add: carStat_def exampleLib_def car_def)

section \<open>The walk and the reachable identifiers\<close>

lemma iterateDag_Suc:
  "iterateDag (Suc n) lib b blocks =
     (case decodeBlock lib b of
        Inl e \<Rightarrow> Some (Inl e)
      | Inr v \<Rightarrow> iterateLinks n lib (links v) blocks)"
  by (simp add: decodeBlock_def split: option.split)

lemma find_cid_None: "find (\<lambda>b. cid b = c) blocks = None \<longleftrightarrow> c \<notin> cid ` set blocks"
  by (auto simp add: find_None_iff)

lemma find_cid_Some:
  assumes "find (\<lambda>b. cid b = c) blocks = Some b"
  shows "cid b = c" and "c \<in> cid ` set blocks"
    and "find (\<lambda>x. cid x = cid b) blocks = Some b"
proof -
  from assms show c: "cid b = c"
    by (auto simp add: find_Some_iff)
  from assms have "b \<in> set blocks"
    by (auto simp add: find_Some_iff)
  with c show "c \<in> cid ` set blocks"
    by auto
  from assms c show "find (\<lambda>x. cid x = cid b) blocks = Some b"
    by simp
qed

lemma reachable_unfold:
  "reachable lib blocks c = insert c (\<Union>l \<in> set (linksOf lib blocks c). reachable lib blocks l)"
  by (auto simp add: reachable_def linkRel_def elim: converse_rtranclE
      intro: converse_rtrancl_into_rtrancl)

lemma reachable_root: "c \<in> reachable lib blocks c"
  by (simp add: reachable_def)

lemma reachable_step:
  "c \<in> reachable lib blocks root \<Longrightarrow> l \<in> set (linksOf lib blocks c) \<Longrightarrow> l \<in> reachable lib blocks root"
  by (auto simp add: reachable_def linkRel_def intro: rtrancl_into_rtrancl)

lemma reachable_subset:
  assumes "root \<in> S" and "\<And>c. c \<in> S \<Longrightarrow> set (linksOf lib blocks c) \<subseteq> S"
  shows "reachable lib blocks root \<subseteq> S"
proof
  fix x
  assume "x \<in> reachable lib blocks root"
  then have "(root, x) \<in> (linkRel lib blocks)\<^sup>*"
    by (simp add: reachable_def)
  then show "x \<in> S"
  proof (induction rule: rtrancl_induct)
    case base
    show ?case by (rule assms(1))
  next
    case (step y z)
    with assms(2) [of y] show ?case
      by (auto simp add: linkRel_def)
  qed
qed

lemma allPresent_unfold:
  "allPresent lib blocks c \<longleftrightarrow>
     c \<in> cid ` set blocks \<and> (\<forall>l \<in> set (linksOf lib blocks c). allPresent lib blocks l)"
  unfolding allPresent_def by (subst reachable_unfold) auto

lemma linksOf_found:
  "find (\<lambda>x. cid x = c) blocks = Some b \<Longrightarrow> decodeBlock lib b = Inr v
    \<Longrightarrow> linksOf lib blocks c = links v"
  by (simp add: linksOf_def)

lemma walk_sound:
  "iterateDag n lib b blocks = Some (Inr r) \<Longrightarrow> find (\<lambda>x. cid x = cid b) blocks = Some b
    \<Longrightarrow> r = allPresent lib blocks (cid b)"
  "iterateLinks n lib ls blocks = Some (Inr r) \<Longrightarrow> r = (\<forall>l \<in> set ls. allPresent lib blocks l)"
proof (induction n lib b blocks and n lib ls blocks arbitrary: r and r
    rule: iterateDag_iterateLinks.induct)
  case (1 lib rawBlock blocks)
  then show ?case by simp
next
  case (2 n lib rawBlock blocks)
  from "2.prems"(1) obtain v where v: "decodeBlock lib rawBlock = Inr v"
    and w: "iterateLinks n lib (links v) blocks = Some (Inr r)"
    by (auto simp add: iterateDag_Suc simp del: iterateDag.simps split: sum.splits)
  from v obtain decoder where d: "find (\<lambda>d. fst d = code (cid rawBlock)) (decoders lib) = Some decoder"
    and dv: "snd decoder (bytes rawBlock) = Inr v"
    by (auto simp add: decodeBlock_def split: option.splits)
  from "2.IH" [OF d dv w] have "r = (\<forall>l \<in> set (links v). allPresent lib blocks l)" .
  moreover from find_cid_Some(2) [OF "2.prems"(2)] have "cid rawBlock \<in> cid ` set blocks" .
  moreover note linksOf_found [OF "2.prems"(2) v]
  ultimately show ?case
    by (subst allPresent_unfold) simp
next
  case (3 n lib blocks)
  then show ?case by simp
next
  case (4 n lib link rest blocks)
  show ?case
  proof (cases "find (\<lambda>b. cid b = link) blocks")
    case None
    with "4.prems" have "r = False"
      by simp
    moreover from None have "\<not> allPresent lib blocks link"
      by (subst allPresent_unfold) (simp add: find_cid_None)
    ultimately show ?thesis
      by simp
  next
    case (Some existingBlock)
    from find_cid_Some [OF Some] have e: "cid existingBlock = link"
      "find (\<lambda>x. cid x = cid existingBlock) blocks = Some existingBlock"
      by auto
    show ?thesis
    proof (cases "iterateDag n lib existingBlock blocks")
      case None
      with "4.prems" Some show ?thesis
        by simp
    next
      case walked: (Some x)
      show ?thesis
      proof (cases x)
        case (Inl err)
        with "4.prems" Some walked show ?thesis
          by simp
      next
        case (Inr complete)
        from "4.IH"(1) [OF Some walked [unfolded Inr] e(2)] e(1)
        have p: "complete = allPresent lib blocks link"
          by simp
        show ?thesis
        proof (cases complete)
          case True
          with "4.prems" Some walked Inr have "iterateLinks n lib rest blocks = Some (Inr r)"
            by simp
          from "4.IH"(2) [OF Some walked Inr _ this] True
          have "r = (\<forall>l \<in> set rest. allPresent lib blocks l)"
            by simp
          with p True show ?thesis
            by simp
        next
          case False
          with "4.prems" Some walked Inr have "r = False"
            by simp
          with False p show ?thesis
            by simp
        qed
      qed
    qed
  qed
qed

lemma walk_Suc:
  "iterateDag n lib b blocks = Some res \<Longrightarrow> iterateDag (Suc n) lib b blocks = Some res"
  "iterateLinks n lib ls blocks = Some res \<Longrightarrow> iterateLinks (Suc n) lib ls blocks = Some res"
proof (induction n lib b blocks and n lib ls blocks arbitrary: res and res
    rule: iterateDag_iterateLinks.induct)
  case (1 lib rawBlock blocks)
  then show ?case by simp
next
  case (2 n lib rawBlock blocks)
  show ?case
  proof (cases "decodeBlock lib rawBlock")
    case (Inl e)
    with "2.prems" show ?thesis
      by (simp add: iterateDag_Suc del: iterateDag.simps)
  next
    case (Inr v)
    then obtain decoder where d: "find (\<lambda>d. fst d = code (cid rawBlock)) (decoders lib) = Some decoder"
      and dv: "snd decoder (bytes rawBlock) = Inr v"
      by (auto simp add: decodeBlock_def split: option.splits)
    from "2.prems" Inr have "iterateLinks n lib (links v) blocks = Some res"
      by (simp add: iterateDag_Suc del: iterateDag.simps)
    from "2.IH" [OF d dv this] Inr show ?thesis
      by (simp add: iterateDag_Suc [of "Suc n"] del: iterateDag.simps)
  qed
next
  case (3 n lib blocks)
  then show ?case by simp
next
  case (4 n lib link rest blocks)
  show ?case
  proof (cases "find (\<lambda>b. cid b = link) blocks")
    case None
    with "4.prems" show ?thesis
      by simp
  next
    case (Some existingBlock)
    show ?thesis
    proof (cases "iterateDag n lib existingBlock blocks")
      case None
      with "4.prems" Some show ?thesis
        by simp
    next
      case walked: (Some x)
      note deeper = "4.IH"(1) [OF Some walked]
      show ?thesis
      proof (cases x)
        case (Inl err)
        with "4.prems" Some walked have "res = Inl err"
          by simp
        with Some deeper Inl show ?thesis
          by (simp del: iterateDag.simps)
      next
        case (Inr complete)
        show ?thesis
        proof (cases complete)
          case True
          with "4.prems" Some walked Inr have "iterateLinks n lib rest blocks = Some res"
            by simp
          from "4.IH"(2) [OF Some walked Inr _ this] True
          have "iterateLinks (Suc n) lib rest blocks = Some res"
            by simp
          with Some deeper Inr True show ?thesis
            by (simp del: iterateDag.simps)
        next
          case False
          with "4.prems" Some walked Inr have "res = Inr False"
            by simp
          with Some deeper Inr False show ?thesis
            by (simp del: iterateDag.simps)
        qed
      qed
    qed
  qed
qed

lemma walk_mono:
  assumes "n \<le> m"
  shows "iterateDag n lib b blocks = Some res \<Longrightarrow> iterateDag m lib b blocks = Some res"
    and "iterateLinks n lib ls blocks = Some res \<Longrightarrow> iterateLinks m lib ls blocks = Some res"
  using assms by (induction m rule: dec_induct) (auto dest: walk_Suc simp del: iterateDag.simps iterateLinks.simps)

lemma links_complete:
  assumes "\<And>l b. l \<in> set ls \<Longrightarrow> find (\<lambda>x. cid x = l) blocks = Some b
             \<Longrightarrow> \<exists>r. iterateDag n lib b blocks = Some (Inr r)"
  shows "\<exists>r. iterateLinks n lib ls blocks = Some (Inr r)"
  using assms
proof (induction ls)
  case Nil
  have "iterateLinks n lib [] blocks = Some (Inr True)"
    by simp
  then show ?case
    by blast
next
  case (Cons link rest)
  have "\<exists>r. iterateLinks n lib rest blocks = Some (Inr r)"
  proof (rule Cons.IH)
    fix l b
    assume "l \<in> set rest" "find (\<lambda>x. cid x = l) blocks = Some b"
    then show "\<exists>r. iterateDag n lib b blocks = Some (Inr r)"
      using Cons.prems [of l b] by simp
  qed
  then obtain r1 where rest: "iterateLinks n lib rest blocks = Some (Inr r1)"
    by blast
  show ?case
  proof (cases "find (\<lambda>b. cid b = link) blocks")
    case None
    then have "iterateLinks n lib (link # rest) blocks = Some (Inr False)"
      by simp
    then show ?thesis
      by blast
  next
    case (Some existingBlock)
    with Cons.prems [of link existingBlock] obtain r2
      where "iterateDag n lib existingBlock blocks = Some (Inr r2)"
      by auto
    with Some rest have "iterateLinks n lib (link # rest) blocks
        = Some (Inr (if \<not> r2 then False else r1))"
      by simp
    then show ?thesis
      by blast
  qed
qed

lemma walk_within_blocks:
  assumes dec: "allDecode lib blocks root"
    and acyc: "acyclic (walkRel lib blocks root)"
  shows "distinct p \<Longrightarrow> set p \<subseteq> cid ` set blocks
    \<Longrightarrow> \<forall>x \<in> set p. (x, c) \<in> (walkRel lib blocks root)\<^sup>*
    \<Longrightarrow> c \<in> reachable lib blocks root
    \<Longrightarrow> find (\<lambda>x. cid x = c) blocks = Some b
    \<Longrightarrow> card (cid ` set blocks) < length p + n
    \<Longrightarrow> \<exists>r. iterateDag n lib b blocks = Some (Inr r)"
proof (induction n arbitrary: p c b)
  case 0
  from "0.prems"(1,2) have "length p \<le> card (cid ` set blocks)"
    using card_mono [of "cid ` set blocks" "set p"] by (simp add: distinct_card)
  with "0.prems"(6) show ?case
    by simp
next
  case (Suc n)
  from dec Suc.prems(4,5) obtain v where v: "decodeBlock lib b = Inr v"
    by (cases "decodeBlock lib b") (auto simp add: allDecode_def)
  note ls = linksOf_found [OF Suc.prems(5) v]
  have "\<exists>r. iterateDag n lib b' blocks = Some (Inr r)"
    if l: "l \<in> set (links v)" and f: "find (\<lambda>x. cid x = l) blocks = Some b'" for l b'
  proof -
    from l ls Suc.prems(4) have step: "(c, l) \<in> walkRel lib blocks root"
      by (simp add: walkRel_def)
    have fresh: "l \<notin> set p"
    proof
      assume "l \<in> set p"
      with Suc.prems(3) have "(l, c) \<in> (walkRel lib blocks root)\<^sup>*"
        by blast
      with step have "(c, c) \<in> (walkRel lib blocks root)\<^sup>+"
        by (rule rtrancl_into_trancl2)
      with acyc show False
        by (simp add: acyclic_def)
    qed
    have "\<forall>x \<in> set (l # p). (x, l) \<in> (walkRel lib blocks root)\<^sup>*"
      using Suc.prems(3) step by (auto intro: rtrancl_into_rtrancl)
    moreover from fresh Suc.prems(1) have "distinct (l # p)"
      by simp
    moreover from find_cid_Some(2) [OF f] Suc.prems(2) have "set (l # p) \<subseteq> cid ` set blocks"
      by simp
    moreover from l ls Suc.prems(4) have "l \<in> reachable lib blocks root"
      by (auto intro: reachable_step)
    moreover from Suc.prems(6) have "card (cid ` set blocks) < length (l # p) + n"
      by simp
    ultimately show ?thesis
      using f by (intro Suc.IH [of "l # p" l b'])
  qed
  then have "\<exists>r. iterateLinks n lib (links v) blocks = Some (Inr r)"
    by (rule links_complete)
  with v show ?case
    by (simp add: iterateDag_Suc del: iterateDag.simps)
qed

lemma raw_root_links:
  assumes "find (\<lambda>x. cid x = root) blocks = Some rootBlock" and "code root = raw_code"
  shows "linksOf lib blocks root = []"
proof -
  from find_cid_Some(1) [OF assms(1)] assms(2)
  have "decodeBlock lib rootBlock = Inr (RawValue (bytes rootBlock))"
    by (simp add: decodeBlock_def decoders_def pb_code_def raw_code_def)
  from linksOf_found [OF assms(1) this] show ?thesis
    by simp
qed

lemma readBlocks_root:
  assumes "readBlocks root bs bad None [] = Inr (Some rootBlock, blocks)"
  shows "blocks = bs" and "find (\<lambda>x. cid x = root) blocks = Some rootBlock"
  using assms by (auto simp add: readBlocks_eq split: option.splits if_splits)

lemma inspect_sound:
  assumes rd: "readBlocks root (yielded it) (malformed it) None [] = Inr (Some rootBlock, blocks)"
    and res: "inspectCarBlocks n lib root it = Some (Inr r)"
    and sup: "supported (code root)"
  shows "structure r = Some (if allPresent lib blocks root then ''Complete'' else ''Partial'')"
proof -
  note f = readBlocks_root(2) [OF rd]
  note c = find_cid_Some [OF f]
  from sup obtain d where d: "find (\<lambda>d. fst d = code root) (decoders lib) = Some d"
    using find_decoder_None [of "code root" lib] by auto
  show ?thesis
  proof (cases "length blocks = 1 \<and> code root = raw_code")
    case True
    from raw_root_links [OF f] True c(2) have "allPresent lib blocks root"
      by (subst allPresent_unfold) simp
    moreover from res True d have "structure r = Some ''Complete''"
      by (auto simp add: inspectCarBlocks_after_loop [OF rd] split: sum.splits if_splits)
    ultimately show ?thesis
      by simp
  next
    case False
    with res d obtain isComplete
      where w: "iterateDag n lib rootBlock blocks = Some (Inr isComplete)"
        and s: "structure r = Some (if isComplete then ''Complete'' else ''Partial'')"
      by (auto simp add: inspectCarBlocks_after_loop [OF rd] split: sum.splits if_splits option.splits)
    from walk_sound(1) [OF w c(3)] c(1) s show ?thesis
      by simp
  qed
qed

lemma zero_size_complete:
  assumes res: "inspectCar n lib body metadata = Some (Inr r)"
    and zero: "size' r = Some 0"
    and empty: "emptyNodeHasNoLinks lib"
  shows "structure r = Some ''Complete''"
    and "\<exists>root it rootBlock. carStat lib body = Inr (root, it)
           \<and> find (\<lambda>b. cid b = root) (yielded it) = Some rootBlock
           \<and> code root = pb_code \<and> bytes rootBlock = []"
proof -
  from res obtain root it inspection
    where c: "carStat lib body = Inr (root, it)"
      and i: "inspectCarBlocks n lib root it = Some (Inr inspection)"
      and r: "structure r = orElse (structure inspection) (metadata ''structure'')"
        "size' r = size' inspection"
    by (auto simp add: inspectCar_def split: sum.splits option.splits)
  from inspectCarBlocks_Inr [OF i] obtain rootBlock
    where rd: "readBlocks root (yielded it) (malformed it) None [] = Inr (Some rootBlock, yielded it)"
      and f: "find (\<lambda>b. cid b = root) (yielded it) = Some rootBlock"
    by auto
  from inspectCarBlocks_size [OF i f] zero r(2)
  have pb: "code root = pb_code"
    by (auto split: if_splits)
  with inspectCarBlocks_size [OF i f] zero r(2) obtain pbNode
    where d: "pb_decode lib (bytes rootBlock) = Some pbNode"
      and z: "cumulativeSize (bytes rootBlock) pbNode = 0"
    by auto
  from z have b: "bytes rootBlock = []"
    by (rule cumulativeSize_zero)
  with d empty have l: "Links pbNode = []"
    by (simp add: emptyNodeHasNoLinks_def)
  from find_cid_Some(1) [OF f] pb d have "decodeBlock lib rootBlock = Inr (PBValue pbNode)"
    by (simp add: decodeBlock_def find_decoder_pb_eq)
  from linksOf_found [OF f this] l have "linksOf lib (yielded it) root = []"
    by simp
  with find_cid_Some(2) [OF f] have "allPresent lib (yielded it) root"
    by (subst allPresent_unfold) simp
  moreover from pb have "supported (code root)"
    by (simp add: supported_def)
  ultimately have "structure inspection = Some ''Complete''"
    using inspect_sound [OF rd i] by simp
  with r(1) show "structure r = Some ''Complete''"
    by (simp add: orElse_def)
  from c f pb b show "\<exists>root it rootBlock. carStat lib body = Inr (root, it)
           \<and> find (\<lambda>b. cid b = root) (yielded it) = Some rootBlock
           \<and> code root = pb_code \<and> bytes rootBlock = []"
    by blast
qed

lemma inspect_returns:
  assumes rd: "readBlocks root (yielded it) (malformed it) None [] = Inr (Some rootBlock, blocks)"
    and sup: "supported (code root)"
    and dec: "allDecode lib blocks root"
    and acyc: "acyclic (walkRel lib blocks root)"
    and deep: "length blocks \<le> n"
  shows "\<exists>r. inspectCarBlocks n lib root it = Some (Inr r)"
proof -
  note f = readBlocks_root(2) [OF rd]
  note c = find_cid_Some [OF f]
  have "card (cid ` set blocks) \<le> length blocks"
    using card_image_le [of "set blocks" cid] card_length [of blocks] by simp
  with deep have "card (cid ` set blocks) < length [root] + n"
    by simp
  with c(2) reachable_root [of root lib blocks] f
  have "\<exists>r. iterateDag n lib rootBlock blocks = Some (Inr r)"
    by (intro walk_within_blocks [OF dec acyc, of "[root]" root]) simp_all
  then obtain r0 where wn: "iterateDag n lib rootBlock blocks = Some (Inr r0)"
    by blast
  from sup obtain d where d: "find (\<lambda>d. fst d = code root) (decoders lib) = Some d"
    using find_decoder_None [of "code root" lib] by auto
  from dec f obtain v where "decodeBlock lib rootBlock = Inr v"
    using reachable_root [of root lib blocks]
    by (cases "decodeBlock lib rootBlock") (auto simp add: allDecode_def)
  with d c(1) have dv: "snd d (bytes rootBlock) = Inr v"
    by (simp add: decodeBlock_def)
  show ?thesis
  proof (cases "code root = pb_code")
    case True
    with d dv obtain pbNode where "v = PBValue pbNode"
      by (auto dest: find_decoder_pb)
    with d dv wn c(1) True show ?thesis
      by (simp add: inspectCarBlocks_after_loop [OF rd])
  next
    case False
    with d dv wn c(1) show ?thesis
      by (simp add: inspectCarBlocks_after_loop [OF rd])
  qed
qed

lemma iterateDag_links_error:
  "decodeBlock lib b = Inr v \<Longrightarrow> iterateLinks n lib (links v) blocks = Some (Inl e)
    \<Longrightarrow> iterateDag (Suc n) lib b blocks = Some (Inl e)"
  by (simp add: iterateDag_Suc del: iterateDag.simps)

lemma iterateLinks_child_error:
  "iterateLinks n lib pre blocks = Some (Inr True) \<Longrightarrow> find (\<lambda>b. cid b = link) blocks = Some b
    \<Longrightarrow> iterateDag n lib b blocks = Some (Inl e)
    \<Longrightarrow> iterateLinks n lib (pre @ link # rest) blocks = Some (Inl e)"
  by (simp add: iterateLinks_append)

lemma walkReaches_unsupported:
  "walkReaches n lib blocks b target \<Longrightarrow> \<not> supported (code (cid target))
    \<Longrightarrow> iterateDag n lib b blocks = Some (Inl TypeError)"
  "linksReach n lib blocks ls target \<Longrightarrow> \<not> supported (code (cid target))
    \<Longrightarrow> iterateLinks n lib ls blocks = Some (Inl TypeError)"
proof (induction n lib blocks b target and n lib blocks ls target
    rule: walkReaches_linksReach.induct)
  case (1 lib blocks b target)
  then show ?case by simp
next
  case (2 n lib blocks b target)
  show ?case
  proof (cases "b = target")
    case True
    with "2.prems"(2) show ?thesis
      by (simp add: iterateDag_unsupported del: iterateDag.simps)
  next
    case False
    with "2.prems"(1) obtain v where v: "decodeBlock lib b = Inr v"
      and l: "linksReach n lib blocks (links v) target"
      by (auto split: sum.splits)
    from "2.IH" [OF v l "2.prems"(2)] v show ?thesis
      by (rule iterateDag_links_error [rotated])
  qed
next
  case (3 n lib blocks target)
  then show ?case by simp
next
  case (4 n lib blocks link rest target)
  from "4.prems"(1) obtain existingBlock
    where f: "find (\<lambda>x. cid x = link) blocks = Some existingBlock"
      and w: "walkReaches n lib blocks existingBlock target
          \<or> (iterateDag n lib existingBlock blocks = Some (Inr True)
              \<and> linksReach n lib blocks rest target)"
    by (auto split: option.splits)
  from w show ?case
  proof
    assume "walkReaches n lib blocks existingBlock target"
    from "4.IH"(1) [OF f this "4.prems"(2)] f show ?thesis
      by simp
  next
    assume c: "iterateDag n lib existingBlock blocks = Some (Inr True)
              \<and> linksReach n lib blocks rest target"
    with "4.IH"(2) [OF f _ "4.prems"(2)] f show ?thesis
      by simp
  qed
qed

lemma example_links:
  "linksOf (exampleLib it) [pbBlock [2], rawBlock, otherBlock] (pbCid [2]) = [rawCid, otherCid]"
  "linksOf (exampleLib it) [pbBlock [2], rawBlock, otherBlock] rawCid = []"
  "linksOf (exampleLib it) [pbBlock [2], rawBlock, otherBlock] otherCid = []"
  "linksOf (exampleLib it) [pbBlock [1], rawBlock] (pbCid [1]) = [rawCid]"
  "linksOf (exampleLib it) [pbBlock [1], rawBlock] rawCid = []"
  "linksOf (exampleLib it) [pbBlock [1]] (pbCid [1]) = [rawCid]"
  by (simp_all add: linksOf_def decodeBlock_def example_defs)

lemma example_reachable:
  "reachable (exampleLib it) [pbBlock [1], rawBlock] (pbCid [1]) \<subseteq> {pbCid [1], rawCid}"
  by (rule reachable_subset) (auto simp add: example_links)

lemma example_links_any:
  "l \<in> set (linksOf (exampleLib it) [pbBlock [1], rawBlock] c) \<Longrightarrow> c = pbCid [1] \<and> l = rawCid"
  by (auto simp add: linksOf_def decodeBlock_def example_defs split: if_splits)



lemma example_partial_car:
  "inspectCar (Suc (Suc 0)) (exampleLib (car [pbCid [1]] [pbBlock [1]])) [] Map.empty
     = Some (Inr \<lparr>rootCid = pbCid [1], structure = Some ''Partial'', size' = Some 3\<rparr>)"
  by (simp add: inspectCar_def carStat_example example_partial orElse_def)

lemma example_empty_node: "emptyNodeHasNoLinks (exampleLib it)"
  by (simp add: emptyNodeHasNoLinks_def exampleLib_def examplePb_def)

lemma example_large_sum: "jsAdd 53 (jsAdd 0 (2 ^ 53)) = 9007199254741044"
  by (simp add: jsAdd_def roundDouble_def exponent.simps Let_def)

lemma example_large_size:
  "cumulativeSize (replicate 53 0) \<lparr>Data = None, Links = [pbLink c (Some 9007199254740992)]\<rparr>
     = 9007199254741044"
  using example_large_sum by (simp add: cumulativeSize_def orZero_def pbLink_def)

lemma pbLink_Hash: "Hash (pbLink c t) = c"
  by (simp add: pbLink_def)

lemma example_large:
  "inspectCarBlocks (Suc (Suc 0)) largeLib (pbCid (replicate 53 0))
       (car [pbCid (replicate 53 0)] [pbBlock (replicate 53 0), rawBlock])
     = Some (Inr \<lparr>rootCid = pbCid (replicate 53 0), structure = Some ''Complete'',
         size' = Some 9007199254741044\<rparr>)"
  by (simp add: inspectCarBlocks_def largeLib_def largePb_def car_def pbBlock_def pbCid_def
      rawBlock_def rawCid_def pbLink_Hash decoders_def pb_code_def raw_code_def cbor_code_def
      MAX_BLOCK_SIZE_def example_large_size)

section \<open>Parsing the archive\<close>

text \<open>
  C8. When the header that \<^verbatim>\<open>CarBlockIterator.fromBytes\<close> reads declares no root,
  \<^verbatim>\<open>carStat\<close> throws \<^verbatim>\<open>missing roots\<close>, and with it the inspection; when it declares more
  than one, \<^verbatim>\<open>too many roots\<close>; when it declares exactly one, \<^verbatim>\<open>carStat\<close> returns it,
  the inspection throws neither error, and the root it returns is that one.
\<close>

theorem carStat_roots:
  assumes "fromBytes lib carBytes = Inr it"
  shows "(length (getRoots it) = 0 \<longrightarrow> carStat lib carBytes = Inl MissingRoots
            \<and> inspectCar n lib carBytes metadata = Some (Inl MissingRoots))
       \<and> (length (getRoots it) > 1 \<longrightarrow> carStat lib carBytes = Inl TooManyRoots
            \<and> inspectCar n lib carBytes metadata = Some (Inl TooManyRoots))
       \<and> (length (getRoots it) = 1 \<longrightarrow> carStat lib carBytes = Inr (getRoots it ! 0, it)
            \<and> inspectCar n lib carBytes metadata \<noteq> Some (Inl MissingRoots)
            \<and> inspectCar n lib carBytes metadata \<noteq> Some (Inl TooManyRoots)
            \<and> (\<forall>r. inspectCar n lib carBytes metadata = Some (Inr r) \<longrightarrow> rootCid r = getRoots it ! 0))"
proof -
  note c = carStat_cases [OF assms]
  have 0: "inspectCar n lib carBytes metadata = Some (Inl MissingRoots)"
    if "length (getRoots it) = 0"
    using c(1) [OF that] by (simp add: inspectCar_def)
  have 2: "inspectCar n lib carBytes metadata = Some (Inl TooManyRoots)"
    if "length (getRoots it) > 1"
    using c(2) [OF that] by (simp add: inspectCar_def)
  have e: "inspectCar n lib carBytes metadata \<noteq> Some (Inl e)"
    if "length (getRoots it) = 1" "e = MissingRoots \<or> e = TooManyRoots" for e
  proof
    assume "inspectCar n lib carBytes metadata = Some (Inl e)"
    with c(3) [OF that(1)] have "inspectCarBlocks n lib (getRoots it ! 0) it = Some (Inl e)"
      by (auto simp add: inspectCar_def split: option.splits sum.splits)
    from inspectCarBlocks_errors [OF this] that(2) show False
      by auto
  qed
  have r: "rootCid r = getRoots it ! 0"
    if "length (getRoots it) = 1" "inspectCar n lib carBytes metadata = Some (Inr r)" for r
    using c(3) [OF that(1)] that(2)
    by (auto simp add: inspectCar_def split: option.splits sum.splits)
  from c 0 2 e r show ?thesis
    by blast
qed

theorem carStat_roots_witness:
  "inspectCar 0 (exampleLib (car [] [rawBlock])) [] Map.empty = Some (Inl MissingRoots)
   \<and> inspectCar 0 (exampleLib (car [rawCid, pbCid [1]] [rawBlock])) [] Map.empty
       = Some (Inl TooManyRoots)
   \<and> carStat (exampleLib (car [rawCid] [rawBlock])) [] = Inr (rawCid, car [rawCid] [rawBlock])
   \<and> inspectCar 0 (exampleLib (car [rawCid] [rawBlock])) [] Map.empty
       = Some (Inr \<lparr>rootCid = rawCid, structure = Some ''Complete'', size' = None\<rparr>)"
proof -
  have f: "fromBytes (exampleLib it) [] = Inr it" for it
    by (simp add: exampleLib_def)
  have l: "length (getRoots (car [] [rawBlock])) = 0"
    "length (getRoots (car [rawCid, pbCid [1]] [rawBlock])) > 1"
    "length (getRoots (car [rawCid] [rawBlock])) = 1"
    "getRoots (car [rawCid] [rawBlock]) ! 0 = rawCid"
    by (simp_all add: car_def)
  from carStat_roots [OF f, of "car [] [rawBlock]" 0 Map.empty] l(1)
  have 0: "inspectCar 0 (exampleLib (car [] [rawBlock])) [] Map.empty = Some (Inl MissingRoots)"
    by blast
  from carStat_roots [OF f, of "car [rawCid, pbCid [1]] [rawBlock]" 0 Map.empty] l(2)
  have 2: "inspectCar 0 (exampleLib (car [rawCid, pbCid [1]] [rawBlock])) [] Map.empty
       = Some (Inl TooManyRoots)"
    by blast
  from carStat_roots [OF f, of "car [rawCid] [rawBlock]" 0 Map.empty] l(3,4)
  have 1: "carStat (exampleLib (car [rawCid] [rawBlock])) [] = Inr (rawCid, car [rawCid] [rawBlock])"
    by simp
  then have "inspectCar 0 (exampleLib (car [rawCid] [rawBlock])) [] Map.empty
       = Some (Inr \<lparr>rootCid = rawCid, structure = Some ''Complete'', size' = None\<rparr>)"
    by (simp add: inspectCar_def example_raw orElse_def)
  with 0 2 1 show ?thesis
    by simp
qed

text \<open>
  C9. \<^verbatim>\<open>inspectCarBlocks\<close> throws \<^verbatim>\<open>block too big\<close> exactly when a block of the archive has
  more than 1048576 bytes, and so does \<^verbatim>\<open>inspectCar\<close> on an archive with one root;
  \<open>MAX_BLOCK_SIZE\<close> is 1048576, and the test is strict.
\<close>

theorem block_too_big_iff:
  "((\<exists>sz. inspectCarBlocks n lib root it = Some (Inl (BlockTooBig sz)))
      \<longleftrightarrow> (\<exists>b \<in> set (yielded it). length (bytes b) > 1048576))
   \<and> (fromBytes lib body = Inr it \<and> length (getRoots it) = 1 \<longrightarrow>
        ((\<exists>sz. inspectCar n lib body metadata = Some (Inl (BlockTooBig sz)))
           \<longleftrightarrow> (\<exists>b \<in> set (yielded it). length (bytes b) > 1048576)))
   \<and> MAX_BLOCK_SIZE = 1048576"
proof -
  have m: "MAX_BLOCK_SIZE = 1048576"
    by (simp add: MAX_BLOCK_SIZE_def)
  have "\<exists>b \<in> set (yielded it). length (bytes b) > MAX_BLOCK_SIZE"
    if "inspectCarBlocks n lib c it = Some (Inl (BlockTooBig sz))" for sz c
    using inspectCarBlocks_errors [OF that] by (auto simp add: find_Some_iff)
  moreover have "\<exists>sz. inspectCarBlocks n lib c it = Some (Inl (BlockTooBig sz))"
    if "b \<in> set (yielded it)" "length (bytes b) > MAX_BLOCK_SIZE" for b c
  proof -
    from that obtain b' where "find (\<lambda>b. length (bytes b) > MAX_BLOCK_SIZE) (yielded it) = Some b'"
      by (cases "find (\<lambda>b. length (bytes b) > MAX_BLOCK_SIZE) (yielded it)")
        (auto simp add: find_None_iff)
    from inspectCarBlocks_big [OF this] show ?thesis
      by blast
  qed
  ultimately have blocks: "(\<exists>sz. inspectCarBlocks n lib c it = Some (Inl (BlockTooBig sz)))
      \<longleftrightarrow> (\<exists>b \<in> set (yielded it). length (bytes b) > 1048576)" for c
    unfolding m by blast
  have "(\<exists>sz. inspectCar n lib body metadata = Some (Inl (BlockTooBig sz)))
           \<longleftrightarrow> (\<exists>b \<in> set (yielded it). length (bytes b) > 1048576)"
    if "fromBytes lib body = Inr it" "length (getRoots it) = 1"
  proof -
    from carStat_cases(3) [OF that]
    have "inspectCar n lib body metadata = Some (Inl e)
        \<longleftrightarrow> inspectCarBlocks n lib (getRoots it ! 0) it = Some (Inl e)" for e
      by (auto simp add: inspectCar_def split: option.splits sum.splits)
    with blocks [of "getRoots it ! 0"] show ?thesis
      by simp
  qed
  with blocks [of root] m show ?thesis
    by blast
qed

theorem block_too_big_iff_witness:
  "length (bytes (zeroBlock 1048577)) = 1048577
   \<and> (\<exists>sz. inspectCarBlocks 0 (exampleLib (car [] [])) rawCid
         (car [rawCid] [rawBlock, zeroBlock 1048577]) = Some (Inl (BlockTooBig sz)))
   \<and> length (bytes (zeroBlock 1048576)) = 1048576
   \<and> inspectCarBlocks 0 (exampleLib (car [] [])) rawCid (car [rawCid] [zeroBlock 1048576])
       = Some (Inr \<lparr>rootCid = rawCid, structure = Some ''Complete'', size' = None\<rparr>)"
proof -
  have "\<exists>b \<in> set (yielded (car [rawCid] [rawBlock, zeroBlock 1048577])). length (bytes b) > 1048576"
    by (simp add: car_def zeroBlock_def)
  with block_too_big_iff [of 0 "exampleLib (car [] [])" rawCid "car [rawCid] [rawBlock, zeroBlock 1048577]"
      "[]" Map.empty]
  have "\<exists>sz. inspectCarBlocks 0 (exampleLib (car [] [])) rawCid
         (car [rawCid] [rawBlock, zeroBlock 1048577]) = Some (Inl (BlockTooBig sz))"
    by blast
  with example_max_block [of "car [] []"] show ?thesis
    by (simp add: zeroBlock_def)
qed

section \<open>The structure of the DAG\<close>

text \<open>
  C2, as the claim states it, fails when the walk throws: the root \<open>pbCid [2]\<close> has the
  DAG-PB codec and links to the raw block and to a block of codec 0x99, all three blocks are
  in the archive, so every reachable identifier has its block, and \<^verbatim>\<open>inspectCarBlocks\<close>
  throws the \<^verbatim>\<open>TypeError\<close> of the walk instead of returning \<open>Complete\<close> (a deeper stack
  gives the same, by \<open>walk_mono\<close>).
\<close>

theorem classify_iff_all_present_counterexample:
  "readBlocks (pbCid [2]) (yielded (car [pbCid [2]] [pbBlock [2], rawBlock, otherBlock]))
       (malformed (car [pbCid [2]] [pbBlock [2], rawBlock, otherBlock])) None []
     = Inr (Some (pbBlock [2]), [pbBlock [2], rawBlock, otherBlock])
   \<and> supported (code (pbCid [2]))
   \<and> allPresent (exampleLib (car [] [])) [pbBlock [2], rawBlock, otherBlock] (pbCid [2])
   \<and> inspectCarBlocks (Suc (Suc 0)) (exampleLib (car [] [])) (pbCid [2])
        (car [pbCid [2]] [pbBlock [2], rawBlock, otherBlock]) = Some (Inl TypeError)"
proof -
  let ?bs = "[pbBlock [2], rawBlock, otherBlock]"
  let ?it = "car [pbCid [2]] ?bs"
  have r: "readBlocks (pbCid [2]) (yielded ?it) (malformed ?it) None [] = Inr (Some (pbBlock [2]), ?bs)"
    by (simp add: example_defs)
  have s: "supported (code (pbCid [2]))"
    by (simp add: example_defs)
  have "reachable (exampleLib (car [] [])) ?bs (pbCid [2]) \<subseteq> {pbCid [2], rawCid, otherCid}"
    by (rule reachable_subset) (auto simp add: example_links)
  moreover have "cid ` set ?bs = {pbCid [2], rawCid, otherCid}"
    by (simp add: pbBlock_def rawBlock_def otherBlock_def)
  ultimately have p: "allPresent (exampleLib (car [] [])) ?bs (pbCid [2])"
    by (simp add: allPresent_def)
  from inspectCarBlocks_walk_error [OF r s example_other_child [of "car [] []"]] r s p
  show ?thesis
    by simp
qed

text \<open>
  C2, amended. For an archive that \<^verbatim>\<open>inspectCarBlocks\<close> has read, with its root block, and a
  root whose codec has a decoder: whenever \<^verbatim>\<open>inspectCarBlocks\<close> returns, its structure is
  \<open>Complete\<close> exactly when every identifier reachable from the root has a block in the
  archive, and \<open>Partial\<close> exactly when one has none; it does return when every reachable block
  of the archive decodes, the links between the reachable identifiers have no cycle, and the
  stack has room for as many nested calls as the archive has blocks; and the loop over the
  links returns \<open>false\<close> at the first link without a block, whatever links follow.
\<close>

theorem classify_iff_all_present:
  assumes "readBlocks root (yielded it) (malformed it) None [] = Inr (Some rootBlock, blocks)"
    and "supported (code root)"
  shows "(inspectCarBlocks n lib root it = Some (Inr r) \<longrightarrow>
            (structure r = Some ''Complete'' \<longleftrightarrow> allPresent lib blocks root)
          \<and> (structure r = Some ''Partial'' \<longleftrightarrow> \<not> allPresent lib blocks root))
       \<and> (allDecode lib blocks root \<and> acyclic (walkRel lib blocks root) \<longrightarrow>
            (\<forall>m \<ge> length blocks. \<exists>r. inspectCarBlocks m lib root it = Some (Inr r)))
       \<and> (find (\<lambda>b. cid b = link) blocks = None \<longrightarrow>
            iterateLinks n lib (link # rest) blocks = Some (Inr False))"
proof -
  have 1: "(structure r = Some ''Complete'' \<longleftrightarrow> allPresent lib blocks root)
          \<and> (structure r = Some ''Partial'' \<longleftrightarrow> \<not> allPresent lib blocks root)"
    if "inspectCarBlocks n lib root it = Some (Inr r)"
    using inspect_sound [OF assms(1) that assms(2)] by simp
  have 2: "\<exists>r. inspectCarBlocks m lib root it = Some (Inr r)"
    if "allDecode lib blocks root" "acyclic (walkRel lib blocks root)" "length blocks \<le> m" for m
    using assms that by (rule inspect_returns)
  have 3: "iterateLinks n lib (link # rest) blocks = Some (Inr False)"
    if "find (\<lambda>b. cid b = link) blocks = None"
    using that by simp
  from 1 2 3 show ?thesis
    by blast
qed

theorem classify_iff_all_present_witness:
  "readBlocks (pbCid [1]) (yielded (car [pbCid [1]] [pbBlock [1], rawBlock]))
       (malformed (car [pbCid [1]] [pbBlock [1], rawBlock])) None []
     = Inr (Some (pbBlock [1]), [pbBlock [1], rawBlock])
   \<and> supported (code (pbCid [1]))
   \<and> allDecode (exampleLib (car [] [])) [pbBlock [1], rawBlock] (pbCid [1])
   \<and> acyclic (walkRel (exampleLib (car [] [])) [pbBlock [1], rawBlock] (pbCid [1]))
   \<and> length [pbBlock [1], rawBlock] \<le> 7
   \<and> (\<exists>r. inspectCarBlocks 7 (exampleLib (car [] [])) (pbCid [1])
         (car [pbCid [1]] [pbBlock [1], rawBlock]) = Some (Inr r))
   \<and> inspectCarBlocks (Suc (Suc 0)) (exampleLib (car [] [])) (pbCid [1])
         (car [pbCid [1]] [pbBlock [1], rawBlock])
       = Some (Inr \<lparr>rootCid = pbCid [1], structure = Some ''Complete'', size' = Some 3\<rparr>)
   \<and> allPresent (exampleLib (car [] [])) [pbBlock [1], rawBlock] (pbCid [1])
   \<and> inspectCarBlocks (Suc (Suc 0)) (exampleLib (car [] [])) (pbCid [1]) (car [pbCid [1]] [pbBlock [1]])
       = Some (Inr \<lparr>rootCid = pbCid [1], structure = Some ''Partial'', size' = Some 3\<rparr>)
   \<and> \<not> allPresent (exampleLib (car [] [])) [pbBlock [1]] (pbCid [1])
   \<and> find (\<lambda>b. cid b = rawCid) [pbBlock [1]] = None
   \<and> iterateLinks (Suc 0) (exampleLib (car [] [])) [rawCid, otherCid] [pbBlock [1]] = Some (Inr False)"
proof -
  let ?L = "exampleLib (car [] [])"
  let ?bs = "[pbBlock [1], rawBlock]"
  let ?it = "car [pbCid [1]] ?bs"
  let ?it' = "car [pbCid [1]] [pbBlock [1]]"
  have r: "readBlocks (pbCid [1]) (yielded ?it) (malformed ?it) None [] = Inr (Some (pbBlock [1]), ?bs)"
    and r': "readBlocks (pbCid [1]) (yielded ?it') (malformed ?it') None []
      = Inr (Some (pbBlock [1]), [pbBlock [1]])"
    and s: "supported (code (pbCid [1]))"
    and f: "find (\<lambda>b. cid b = rawCid) [pbBlock [1]] = None"
    by (simp_all add: example_defs)
  have d: "allDecode ?L ?bs (pbCid [1])"
    unfolding allDecode_def
  proof
    fix c
    assume "c \<in> reachable ?L ?bs (pbCid [1])"
    with example_reachable [of "car [] []"] have "c = pbCid [1] \<or> c = rawCid"
      by auto
    then show "case find (\<lambda>b. cid b = c) ?bs of None \<Rightarrow> True | Some b \<Rightarrow> \<not> isl (decodeBlock ?L b)"
      by (auto simp add: decodeBlock_def example_defs)
  qed
  have "walkRel ?L ?bs (pbCid [1]) \<subseteq> {(pbCid [1], rawCid)}"
    by (auto simp add: walkRel_def dest: example_links_any)
  moreover have "acyclic {(pbCid [1], rawCid)}"
    by (simp add: wf_acyclic example_defs)
  ultimately have a: "acyclic (walkRel ?L ?bs (pbCid [1]))"
    by (rule acyclic_subset [rotated])
  note t = classify_iff_all_present [OF r s, of "Suc (Suc 0)" ?L]
  note t' = classify_iff_all_present [OF r' s, of "Suc 0" ?L _ rawCid "[otherCid]"]
  have l: "length ?bs \<le> 7"
    by simp
  from t d a l have 1: "\<exists>r. inspectCarBlocks 7 ?L (pbCid [1]) ?it = Some (Inr r)"
    by blast
  from t [of "\<lparr>rootCid = pbCid [1], structure = Some ''Complete'', size' = Some 3\<rparr>"]
    example_complete [of "car [] []"]
  have 2: "allPresent ?L ?bs (pbCid [1])"
    by simp
  from classify_iff_all_present [OF r' s, of "Suc (Suc 0)" ?L
      "\<lparr>rootCid = pbCid [1], structure = Some ''Partial'', size' = Some 3\<rparr>"]
    example_partial [of "car [] []"]
  have 3: "\<not> allPresent ?L [pbBlock [1]] (pbCid [1])"
    by simp
  from t' f have 4: "iterateLinks (Suc 0) ?L [rawCid, otherCid] [pbBlock [1]] = Some (Inr False)"
    by blast
  from r s d a l 1 example_complete [of "car [] []"] 2 example_partial [of "car [] []"] 3 f 4
  show ?thesis
    by (intro conjI)
qed

section \<open>The size of the DAG\<close>

text \<open>
  C3, as the claim states it, fails where the doubles round: for a root block of 53 bytes
  whose one link has a \<open>Tsize\<close> of \<open>2^53\<close>, the length plus the sum is 9007199254741045,
  and the size of the inspection is 9007199254741044.
\<close>

theorem estimated_size_counterexample:
  "inspectCarBlocks (Suc (Suc 0)) largeLib (pbCid (replicate 53 0))
       (car [pbCid (replicate 53 0)] [pbBlock (replicate 53 0), rawBlock])
     = Some (Inr \<lparr>rootCid = pbCid (replicate 53 0), structure = Some ''Complete'',
         size' = Some 9007199254741044\<rparr>)
   \<and> length (bytes (pbBlock (replicate 53 0))) = 53
   \<and> pb_decode largeLib (bytes (pbBlock (replicate 53 0)))
       = Some \<lparr>Data = None, Links = [pbLink rawCid (Some (2 ^ 53))]\<rparr>
   \<and> exactSize (bytes (pbBlock (replicate 53 0)))
        \<lparr>Data = None, Links = [pbLink rawCid (Some (2 ^ 53))]\<rparr> = 9007199254741045"
  using example_large
  by (simp add: largeLib_def largePb_def pbBlock_def exactSize_def pbLink_def)

text \<open>
  C3, amended. When \<^verbatim>\<open>inspectCarBlocks\<close> returns for a root of the DAG-PB codec, its size is
  \<^verbatim>\<open>cumulativeSize\<close> of the root block's bytes and of the node they decode to: the sum, in the
  arithmetic of doubles, of the length of the bytes and of the \<open>Tsize\<close> of the links of
  the root node, 0 for a link without one. It is the exact sum whenever that is below
  \<open>2^53\<close>. The size is defined exactly when the root has the DAG-PB codec. Two archives with
  the same root and the same bytes in the root block get the same size, whatever other blocks
  they hold.
\<close>

theorem estimated_size:
  assumes "inspectCarBlocks n lib root it = Some (Inr r)"
  shows "(code root = pb_code \<longrightarrow>
            (\<exists>rootBlock pbNode. find (\<lambda>b. cid b = root) (yielded it) = Some rootBlock
               \<and> pb_decode lib (bytes rootBlock) = Some pbNode
               \<and> size' r = Some (cumulativeSize (bytes rootBlock) pbNode)
               \<and> (exactSize (bytes rootBlock) pbNode < 2 ^ 53
                    \<longrightarrow> size' r = Some (exactSize (bytes rootBlock) pbNode))))
       \<and> (size' r \<noteq> None \<longleftrightarrow> code root = pb_code)
       \<and> (\<forall>m it' r'. inspectCarBlocks m lib root it' = Some (Inr r')
             \<and> map_option bytes (find (\<lambda>b. cid b = root) (yielded it'))
                 = map_option bytes (find (\<lambda>b. cid b = root) (yielded it))
             \<longrightarrow> size' r' = size' r)"
proof -
  from inspectCarBlocks_Inr [OF assms] obtain rootBlock
    where f: "find (\<lambda>b. cid b = root) (yielded it) = Some rootBlock"
    by auto
  from inspectCarBlocks_size [OF assms f]
  have s: "size' r = (if code root = pb_code
           then map_option (cumulativeSize (bytes rootBlock)) (pb_decode lib (bytes rootBlock))
           else None)" "code root = pb_code \<longrightarrow> pb_decode lib (bytes rootBlock) \<noteq> None"
    by blast+
  have 1: "code root = pb_code \<longrightarrow>
            (\<exists>rootBlock pbNode. find (\<lambda>b. cid b = root) (yielded it) = Some rootBlock
               \<and> pb_decode lib (bytes rootBlock) = Some pbNode
               \<and> size' r = Some (cumulativeSize (bytes rootBlock) pbNode)
               \<and> (exactSize (bytes rootBlock) pbNode < 2 ^ 53
                    \<longrightarrow> size' r = Some (exactSize (bytes rootBlock) pbNode)))"
    using f s by (auto simp add: cumulativeSize_exact)
  have 2: "size' r \<noteq> None \<longleftrightarrow> code root = pb_code"
    using s by auto
  have 3: "size' r' = size' r"
    if a: "inspectCarBlocks m lib root it' = Some (Inr r')"
      and b: "map_option bytes (find (\<lambda>b. cid b = root) (yielded it'))
                 = map_option bytes (find (\<lambda>b. cid b = root) (yielded it))"
    for m it' r'
  proof -
    from inspectCarBlocks_Inr [OF a] obtain rootBlock'
      where f': "find (\<lambda>b. cid b = root) (yielded it') = Some rootBlock'"
      by auto
    with b f have "bytes rootBlock' = bytes rootBlock"
      by simp
    with inspectCarBlocks_size [OF a f'] s(1) show ?thesis
      by simp
  qed
  from 1 2 3 show ?thesis
    by blast
qed

theorem estimated_size_witness:
  "inspectCarBlocks (Suc (Suc 0)) (exampleLib (car [] [])) (pbCid [1])
       (car [pbCid [1]] [pbBlock [1], rawBlock])
     = Some (Inr \<lparr>rootCid = pbCid [1], structure = Some ''Complete'', size' = Some 3\<rparr>)
   \<and> inspectCarBlocks (Suc (Suc 0)) (exampleLib (car [] [])) (pbCid [1])
       (car [pbCid [1]] [pbBlock [1]])
     = Some (Inr \<lparr>rootCid = pbCid [1], structure = Some ''Partial'', size' = Some 3\<rparr>)
   \<and> pb_decode (exampleLib (car [] [])) [1] = Some \<lparr>Data = None, Links = [pbLink rawCid (Some 2)]\<rparr>
   \<and> exactSize [1] \<lparr>Data = None, Links = [pbLink rawCid (Some 2)]\<rparr> < 2 ^ 53
   \<and> exactSize [1] \<lparr>Data = None, Links = [pbLink rawCid (Some 2)]\<rparr> = 3"
proof -
  note t = estimated_size [OF example_complete [of "car [] []"]]
  from t have "\<exists>rootBlock pbNode.
      find (\<lambda>b. cid b = pbCid [1]) (yielded (car [pbCid [1]] [pbBlock [1], rawBlock])) = Some rootBlock
      \<and> pb_decode (exampleLib (car [] [])) (bytes rootBlock) = Some pbNode
      \<and> Some (3::nat) = Some (cumulativeSize (bytes rootBlock) pbNode)
      \<and> (exactSize (bytes rootBlock) pbNode < 2 ^ 53
           \<longrightarrow> Some (3::nat) = Some (exactSize (bytes rootBlock) pbNode))"
    by (simp add: pb_code_def pbCid_def)
  moreover have "exactSize [1] \<lparr>Data = None, Links = [pbLink rawCid (Some 2)]\<rparr> < 2 ^ 53"
    by (simp add: exactSize_def pbLink_def)
  ultimately have "exactSize [1] \<lparr>Data = None, Links = [pbLink rawCid (Some 2)]\<rparr> = 3"
    by (auto simp add: car_def exampleLib_def examplePb_def pbBlock_def pbCid_def)
  with example_complete [of "car [] []"] example_partial [of "car [] []"] show ?thesis
    by (simp add: exampleLib_def examplePb_def)
qed

section \<open>Codecs without a decoder\<close>

text \<open>
  C1, as the claim states it, fails for a root whose codec has no decoder: with the root
  \<open>otherCid\<close>, of codec 0x99, and its block in the archive, \<^verbatim>\<open>inspectCar\<close> throws nothing
  and returns a result without a structure.
\<close>

theorem unsupported_codec_counterexample:
  "\<not> supported (code otherCid)
   \<and> carStat (exampleLib (car [otherCid] [otherBlock])) [] = Inr (otherCid, car [otherCid] [otherBlock])
   \<and> yielded (car [otherCid] [otherBlock]) = [otherBlock] \<and> cid otherBlock = otherCid
   \<and> inspectCar (Suc (Suc 0)) (exampleLib (car [otherCid] [otherBlock])) [] Map.empty
       = Some (Inr \<lparr>rootCid = otherCid, structure = None, size' = None\<rparr>)"
proof -
  have "inspectCar (Suc (Suc 0)) (exampleLib (car [otherCid] [otherBlock])) [] Map.empty
       = Some (Inr \<lparr>rootCid = otherCid, structure = None, size' = None\<rparr>)"
    by (simp add: inspectCar_def carStat_example example_other_root orElse_def)
  moreover have "\<not> supported (code otherCid)" "cid otherBlock = otherCid"
    "yielded (car [otherCid] [otherBlock]) = [otherBlock]"
    by (simp_all add: example_defs)
  ultimately show ?thesis
    by (simp add: carStat_example)
qed

text \<open>
  C1, amended. In the walk, a block whose codec has no decoder is a \<^verbatim>\<open>TypeError\<close>. The loop
  over the links passes on the error of the walk under a link whose earlier siblings are
  complete, and \<^verbatim>\<open>iterateDag\<close> passes on the error of its loop: a block without a decoder
  that the walk from a block reaches is a \<^verbatim>\<open>TypeError\<close> of that walk. For an archive with
  one root, read without error and holding the block of the root: when the root has a
  decoder, \<^verbatim>\<open>inspectCar\<close> throws the error of the walk from the root block, so the
  \<^verbatim>\<open>TypeError\<close> of a block without a decoder that this walk reaches; when the root has no
  decoder, \<^verbatim>\<open>inspectCar\<close> throws nothing and returns the structure of the metadata and no
  size.
\<close>

theorem unsupported_codec:
  "(\<not> supported (code (cid b)) \<longrightarrow> iterateDag (Suc n) lib b blocks = Some (Inl TypeError))
   \<and> (iterateLinks n lib pre blocks = Some (Inr True) \<and> find (\<lambda>b. cid b = link) blocks = Some b
        \<and> iterateDag n lib b blocks = Some (Inl e)
      \<longrightarrow> iterateLinks n lib (pre @ link # rest) blocks = Some (Inl e))
   \<and> (decodeBlock lib b = Inr v \<and> iterateLinks n lib (links v) blocks = Some (Inl e)
      \<longrightarrow> iterateDag (Suc n) lib b blocks = Some (Inl e))
   \<and> (walkReaches n lib blocks b target \<and> \<not> supported (code (cid target))
      \<longrightarrow> iterateDag n lib b blocks = Some (Inl TypeError))
   \<and> (carStat lib body = Inr (root, it)
        \<and> readBlocks root (yielded it) (malformed it) None [] = Inr (Some rootBlock, blocks)
      \<longrightarrow> (supported (code root) \<and> iterateDag n lib rootBlock blocks = Some (Inl e)
             \<longrightarrow> inspectCar n lib body metadata = Some (Inl e))
          \<and> (supported (code root) \<and> walkReaches n lib blocks rootBlock target
               \<and> \<not> supported (code (cid target))
             \<longrightarrow> inspectCar n lib body metadata = Some (Inl TypeError))
          \<and> (\<not> supported (code root)
             \<longrightarrow> inspectCar n lib body metadata
                 = Some (Inr \<lparr>rootCid = root, structure = metadata ''structure'', size' = None\<rparr>)))"
proof -
  have 1: "iterateDag (Suc n) lib b blocks = Some (Inl TypeError)"
    if "\<not> supported (code (cid b))"
    using that by (rule iterateDag_unsupported)
  have 2: "iterateLinks n lib (pre @ link # rest) blocks = Some (Inl e)"
    if "iterateLinks n lib pre blocks = Some (Inr True)"
      "find (\<lambda>b. cid b = link) blocks = Some b" "iterateDag n lib b blocks = Some (Inl e)"
    using that by (rule iterateLinks_child_error)
  have 3: "iterateDag (Suc n) lib b blocks = Some (Inl e)"
    if "decodeBlock lib b = Inr v" "iterateLinks n lib (links v) blocks = Some (Inl e)"
    using that by (rule iterateDag_links_error)
  have 4: "iterateDag n lib x blocks = Some (Inl TypeError)"
    if "walkReaches n lib blocks x target" "\<not> supported (code (cid target))" for x
    using that by (rule walkReaches_unsupported(1))
  have 5: "inspectCar n lib body metadata = Some (Inl err)"
    if "carStat lib body = Inr (root, it)"
      "readBlocks root (yielded it) (malformed it) None [] = Inr (Some rootBlock, blocks)"
      "supported (code root)" "iterateDag n lib rootBlock blocks = Some (Inl err)" for err
    using that(1) inspectCarBlocks_walk_error [OF that(2-4)] by (simp add: inspectCar_def)
  have 6: "inspectCar n lib body metadata = Some (Inl TypeError)"
    if "carStat lib body = Inr (root, it)"
      "readBlocks root (yielded it) (malformed it) None [] = Inr (Some rootBlock, blocks)"
      "supported (code root)" "walkReaches n lib blocks rootBlock target"
      "\<not> supported (code (cid target))"
    using that(1-3) 4 [OF that(4,5)] by (rule 5)
  have 7: "inspectCar n lib body metadata
                 = Some (Inr \<lparr>rootCid = root, structure = metadata ''structure'', size' = None\<rparr>)"
    if "carStat lib body = Inr (root, it)"
      "readBlocks root (yielded it) (malformed it) None [] = Inr (Some rootBlock, blocks)"
      "\<not> supported (code root)"
    using that(1,3)
    by (simp add: inspectCar_def inspectCarBlocks_after_loop [OF that(2)]
        find_decoder_None [THEN iffD2] orElse_def)
  from 1 2 3 4 [of b] 5 [of e] 6 7 show ?thesis
    by blast
qed

theorem unsupported_codec_witness:
  "\<not> supported (code (cid otherBlock))
   \<and> walkReaches (Suc (Suc 0)) (exampleLib (car [pbCid [2]] [pbBlock [2], rawBlock, otherBlock]))
        [pbBlock [2], rawBlock, otherBlock] (pbBlock [2]) otherBlock
   \<and> iterateDag (Suc (Suc 0)) (exampleLib (car [pbCid [2]] [pbBlock [2], rawBlock, otherBlock]))
        (pbBlock [2]) [pbBlock [2], rawBlock, otherBlock] = Some (Inl TypeError)
   \<and> inspectCar (Suc (Suc 0)) (exampleLib (car [pbCid [2]] [pbBlock [2], rawBlock, otherBlock]))
        [] Map.empty = Some (Inl TypeError)
   \<and> inspectCar (Suc (Suc 0)) (exampleLib (car [otherCid] [otherBlock, rawBlock]))
        [] [''structure'' \<mapsto> ''Partial'']
       = Some (Inr \<lparr>rootCid = otherCid, structure = Some ''Partial'', size' = None\<rparr>)"
proof -
  let ?bs = "[pbBlock [2], rawBlock, otherBlock]"
  let ?it = "car [pbCid [2]] ?bs"
  let ?it' = "car [otherCid] [otherBlock, rawBlock]"
  have u: "\<not> supported (code (cid otherBlock))" "\<not> supported (code otherCid)"
    by (simp_all add: example_defs)
  have s: "supported (code (pbCid [2]))"
    by (simp add: example_defs)
  have r: "readBlocks (pbCid [2]) (yielded ?it) (malformed ?it) None [] = Inr (Some (pbBlock [2]), ?bs)"
    "readBlocks otherCid (yielded ?it') (malformed ?it') None []
      = Inr (Some otherBlock, [otherBlock, rawBlock])"
    by (simp_all add: example_defs)
  have w: "walkReaches (Suc (Suc 0)) (exampleLib ?it) ?bs (pbBlock [2]) otherBlock"
    by (simp add: decodeBlock_def example_defs)
  from unsupported_codec [where lib = "exampleLib ?it" and body = "[]" and root = "pbCid [2]"
      and it = ?it and rootBlock = "pbBlock [2]" and blocks = ?bs and n = "Suc (Suc 0)"
      and b = "pbBlock [2]" and target = otherBlock and metadata = Map.empty]
    carStat_example [of "pbCid [2]" ?bs "[]"] r(1) s w u(1)
  have 1: "iterateDag (Suc (Suc 0)) (exampleLib ?it) (pbBlock [2]) ?bs = Some (Inl TypeError)"
    and 2: "inspectCar (Suc (Suc 0)) (exampleLib ?it) [] Map.empty = Some (Inl TypeError)"
    by blast+
  from unsupported_codec [where lib = "exampleLib ?it'" and body = "[]" and root = otherCid
      and it = ?it' and rootBlock = otherBlock and blocks = "[otherBlock, rawBlock]"
      and n = "Suc (Suc 0)" and metadata = "[''structure'' \<mapsto> ''Partial'']"]
    carStat_example [of otherCid "[otherBlock, rawBlock]" "[]"] r(2) u(2)
  have 3: "inspectCar (Suc (Suc 0)) (exampleLib ?it') [] [''structure'' \<mapsto> ''Partial'']
       = Some (Inr \<lparr>rootCid = otherCid,
            structure = [''structure'' \<mapsto> ''Partial''] ''structure'', size' = None\<rparr>)"
    by blast
  from u(1) w 1 2 3 show ?thesis
    by simp
qed

text \<open>
  C7. When \<^verbatim>\<open>inspectCar\<close> returns, \<^verbatim>\<open>inspectCarBlocks\<close> has returned for the root of
  \<^verbatim>\<open>carStat\<close>; its structure is \<open>Complete\<close>, \<open>Partial\<close> or undefined, undefined exactly
  when the codec of the root has no decoder; and the structure of the result is that of
  \<^verbatim>\<open>inspectCarBlocks\<close> when it is defined and the \<open>structure\<close> of the metadata otherwise.
\<close>

theorem structure_fallback:
  assumes "inspectCar n lib body metadata = Some (Inr r)"
  shows "\<exists>root it inspection.
           carStat lib body = Inr (root, it)
         \<and> inspectCarBlocks n lib root it = Some (Inr inspection)
         \<and> (structure inspection = None \<longleftrightarrow> \<not> supported (code root))
         \<and> (structure inspection = Some ''Complete'' \<or> structure inspection = Some ''Partial''
              \<or> structure inspection = None)
         \<and> structure r = (case structure inspection of
                             None \<Rightarrow> metadata ''structure''
                           | Some verdict \<Rightarrow> Some verdict)"
proof -
  from assms obtain root it inspection
    where c: "carStat lib body = Inr (root, it)"
      and i: "inspectCarBlocks n lib root it = Some (Inr inspection)"
      and r: "structure r = orElse (structure inspection) (metadata ''structure'')"
    by (auto simp add: inspectCar_def split: sum.splits option.splits)
  from inspectCarBlocks_Inr [OF i] obtain rootBlock
    where rd: "readBlocks root (yielded it) (malformed it) None [] = Inr (Some rootBlock, yielded it)"
    by auto
  from i [unfolded inspectCarBlocks_after_loop [OF rd]]
  have v: "(structure inspection = None \<longleftrightarrow> \<not> supported (code root))
      \<and> (structure inspection = Some ''Complete'' \<or> structure inspection = Some ''Partial''
              \<or> structure inspection = None)"
    by (auto split: option.splits sum.splits if_splits simp add: find_decoder_None
        dest: find_decoder_Some)
  note s1 = conjunct1 [OF v] and s2 = conjunct2 [OF v]
  from s2 r have s3: "structure r = (case structure inspection of
                             None \<Rightarrow> metadata ''structure''
                           | Some verdict \<Rightarrow> Some verdict)"
    by (auto simp add: orElse_def)
  show ?thesis
    apply (rule exI [where x = root])
    apply (rule exI [where x = it])
    apply (rule exI [where x = inspection])
    apply (intro conjI)
        apply (rule c)
       apply (rule i)
      apply (rule s1)
     apply (rule s2)
    apply (rule s3)
    done
qed

theorem structure_fallback_witness:
  "inspectCar (Suc (Suc 0)) (exampleLib (car [otherCid] [otherBlock])) []
       [''structure'' \<mapsto> ''Complete'']
     = Some (Inr \<lparr>rootCid = otherCid, structure = Some ''Complete'', size' = None\<rparr>)
   \<and> (\<exists>root it inspection.
           carStat (exampleLib (car [otherCid] [otherBlock])) [] = Inr (root, it)
         \<and> inspectCarBlocks (Suc (Suc 0)) (exampleLib (car [otherCid] [otherBlock])) root it
              = Some (Inr inspection)
         \<and> (structure inspection = None \<longleftrightarrow> \<not> supported (code root))
         \<and> (structure inspection = Some ''Complete'' \<or> structure inspection = Some ''Partial''
              \<or> structure inspection = None)
         \<and> structure \<lparr>rootCid = otherCid, structure = Some ''Complete'', size' = None\<rparr>
             = (case structure inspection of
                  None \<Rightarrow> [''structure'' \<mapsto> ''Complete''] ''structure''
                | Some verdict \<Rightarrow> Some verdict))"
proof -
  have h: "inspectCar (Suc (Suc 0)) (exampleLib (car [otherCid] [otherBlock])) []
       [''structure'' \<mapsto> ''Complete'']
     = Some (Inr \<lparr>rootCid = otherCid, structure = Some ''Complete'', size' = None\<rparr>)"
    by (simp add: inspectCar_def carStat_example example_other_root orElse_def)
  from h structure_fallback [OF h] show ?thesis
    by (rule conjI)
qed

section \<open>The decision of main\<close>

text \<open>
  C4. When the structure is \<open>Complete\<close>, \<^verbatim>\<open>main\<close> goes straight to the fetch from the
  gateway, whatever the size is and without listing the directory.
\<close>

theorem complete_attempts:
  "decideAndFetch env \<lparr>rootCid = c, structure = Some ''Complete'', size' = sz\<rparr>
     = fetchFromGateway env c (Some ''Complete'')
   \<and> attempts (decideAndFetch env \<lparr>rootCid = c, structure = Some ''Complete'', size' = sz\<rparr>)
   \<and> ListObjectsV2 \<notin> set (fst (decideAndFetch env \<lparr>rootCid = c, structure = Some ''Complete'', size' = sz\<rparr>))"
  by (simp add: decideAndFetch_def fetchFromGateway_def attempts_def split: sum.split)

theorem complete_attempts_witness:
  "attempts (decideAndFetch (exampleEnv [])
     \<lparr>rootCid = pbCid [1], structure = Some ''Complete'', size' = Some 200000000\<rparr>)"
  using complete_attempts [of "exampleEnv []" "pbCid [1]" "Some 200000000"] by blast

text \<open>
  C5. When the structure is \<open>Partial\<close> and the size is above \<open>MAX_SIZE_TO_ATTEMPT\<close>, which
  is 104857600, \<^verbatim>\<open>main\<close> returns without a fetch and without listing the directory: the
  accumulated size plays no part.
\<close>

theorem too_large_defers:
  assumes "sz > MAX_SIZE_TO_ATTEMPT"
  shows "decideAndFetch env \<lparr>rootCid = c, structure = Some ''Partial'', size' = Some sz\<rparr>
           = ([InfoTooLarge], Inr (NoResponse c (Some ''Partial'')))
         \<and> defers (decideAndFetch env \<lparr>rootCid = c, structure = Some ''Partial'', size' = Some sz\<rparr>)
         \<and> MAX_SIZE_TO_ATTEMPT = 104857600"
  using assms by (simp add: decideAndFetch_def defers_def attempts_def MAX_SIZE_TO_ATTEMPT_def)

theorem too_large_defers_witness:
  "(104857601::nat) > MAX_SIZE_TO_ATTEMPT
   \<and> getDirectoryStat (exampleEnv [104857600, 104857600]) = Inr 209715200
   \<and> (209715200::nat) \<ge> 104857601
   \<and> defers (decideAndFetch (exampleEnv [104857600, 104857600])
        \<lparr>rootCid = pbCid [1], structure = Some ''Partial'', size' = Some 104857601\<rparr>)"
proof -
  have h: "(104857601::nat) > MAX_SIZE_TO_ATTEMPT"
    by (simp add: MAX_SIZE_TO_ATTEMPT_def)
  have "getDirectoryStat (exampleEnv [104857600, 104857600]) = Inr 209715200"
    by (simp add: getDirectoryStat_def exampleEnv_def jsAdd_def roundDouble_small)
  moreover from too_large_defers [OF h, of "exampleEnv [104857600, 104857600]" "pbCid [1]"]
  have "defers (decideAndFetch (exampleEnv [104857600, 104857600])
        \<lparr>rootCid = pbCid [1], structure = Some ''Partial'', size' = Some 104857601\<rparr>)"
    by blast
  ultimately show ?thesis using h
    by simp
qed

text \<open>
  C6. For the result of \<^verbatim>\<open>inspectCar\<close> on an archive, when its structure is \<open>Partial\<close>:
  without a size \<^verbatim>\<open>main\<close> does not fetch; with a size that is at most
  \<open>MAX_SIZE_TO_ATTEMPT\<close>, and a listing that sums to \<open>accumSize\<close>, it fetches exactly when
  \<open>accumSize\<close> is at least the size, and returns without a response otherwise. (The size of
  such a result is not 0, which \<^verbatim>\<open>!size\<close> would take for a missing size: a size of 0 is that
  of a root block without bytes, which has no links and is \<open>Complete\<close>.)
\<close>

theorem partial_decision:
  assumes "inspectCar n lib body metadata = Some (Inr r)"
    and "structure r = Some ''Partial''"
    and "emptyNodeHasNoLinks lib"
  shows "(size' r = None \<longrightarrow> defers (decideAndFetch env r))
       \<and> (\<forall>sz accumSize. size' r = Some sz \<and> sz \<le> MAX_SIZE_TO_ATTEMPT
             \<and> getDirectoryStat env = Inr accumSize \<longrightarrow>
            (attempts (decideAndFetch env r) \<longleftrightarrow> accumSize \<ge> sz)
          \<and> (defers (decideAndFetch env r) \<longleftrightarrow> accumSize < sz))"
proof -
  have nonzero: "size' r \<noteq> Some 0"
  proof
    assume "size' r = Some 0"
    from zero_size_complete(1) [OF assms(1) this assms(3)] assms(2) show False
      by simp
  qed
  have 1: "defers (decideAndFetch env r)" if "size' r = None"
    using that assms(2) by (simp add: decideAndFetch_def defers_def attempts_def)
  have 2: "(attempts (decideAndFetch env r) \<longleftrightarrow> accumSize \<ge> sz)
          \<and> (defers (decideAndFetch env r) \<longleftrightarrow> accumSize < sz)"
    if "size' r = Some sz" "sz \<le> MAX_SIZE_TO_ATTEMPT" "getDirectoryStat env = Inr accumSize"
    for sz accumSize
    using that assms(2) nonzero
    by (auto simp add: decideAndFetch_def defers_def attempts_def fetchFromGateway_def Let_def
        split: sum.splits prod.splits)
  from 1 2 show ?thesis
    by blast
qed

theorem partial_decision_witness:
  "inspectCar (Suc (Suc 0)) (exampleLib (car [pbCid [1]] [pbBlock [1]])) [] Map.empty
     = Some (Inr \<lparr>rootCid = pbCid [1], structure = Some ''Partial'', size' = Some 3\<rparr>)
   \<and> emptyNodeHasNoLinks (exampleLib (car [pbCid [1]] [pbBlock [1]]))
   \<and> (3::nat) \<le> MAX_SIZE_TO_ATTEMPT
   \<and> getDirectoryStat (exampleEnv [49, 49]) = Inr 98
   \<and> attempts (decideAndFetch (exampleEnv [49, 49])
        \<lparr>rootCid = pbCid [1], structure = Some ''Partial'', size' = Some 3\<rparr>)
   \<and> getDirectoryStat (exampleEnv []) = Inr 0
   \<and> defers (decideAndFetch (exampleEnv [])
        \<lparr>rootCid = pbCid [1], structure = Some ''Partial'', size' = Some 3\<rparr>)
   \<and> inspectCar (Suc 0) (exampleLib (car [otherCid] [otherBlock])) []
        [''structure'' \<mapsto> ''Partial'']
     = Some (Inr \<lparr>rootCid = otherCid, structure = Some ''Partial'', size' = None\<rparr>)
   \<and> defers (decideAndFetch (exampleEnv [49, 49])
        \<lparr>rootCid = otherCid, structure = Some ''Partial'', size' = None\<rparr>)"
proof -
  let ?r = "\<lparr>rootCid = pbCid [1], structure = Some ''Partial'', size' = Some 3\<rparr>"
  let ?r' = "\<lparr>rootCid = otherCid, structure = Some ''Partial'', size' = None\<rparr>"
  have o: "inspectCar (Suc 0) (exampleLib (car [otherCid] [otherBlock])) []
        [''structure'' \<mapsto> ''Partial''] = Some (Inr ?r')"
    by (simp add: inspectCar_def carStat_example example_other_root orElse_def)
  have s': "structure ?r' = Some ''Partial''" "size' ?r' = None"
    by simp_all
  from partial_decision [OF o s'(1) example_empty_node, of "exampleEnv [49, 49]"] s'(2)
  have n: "defers (decideAndFetch (exampleEnv [49, 49]) ?r')"
    by blast
  have s: "structure ?r = Some ''Partial''" "size' ?r = Some 3"
    by simp_all
  have m: "(3::nat) \<le> MAX_SIZE_TO_ATTEMPT"
    by (simp add: MAX_SIZE_TO_ATTEMPT_def)
  have g: "getDirectoryStat (exampleEnv [49, 49]) = Inr 98" "getDirectoryStat (exampleEnv []) = Inr 0"
    by (simp_all add: getDirectoryStat_def exampleEnv_def jsAdd_def roundDouble_small)
  from partial_decision [OF example_partial_car s(1) example_empty_node, of "exampleEnv [49, 49]"]
    s(2) m g(1)
  have a: "attempts (decideAndFetch (exampleEnv [49, 49]) ?r)"
    by fastforce
  from partial_decision [OF example_partial_car s(1) example_empty_node, of "exampleEnv []"]
    s(2) m g(2)
  have d: "defers (decideAndFetch (exampleEnv []) ?r)"
    by fastforce
  from example_partial_car example_empty_node [of "car [pbCid [1]] [pbBlock [1]]"] m g a d o n
  show ?thesis
    by (intro conjI)
qed




end
